theory Spec2Isabelle
  imports Main "HOL-Library.Char_ord" "HOL-Library.List_Lexorder" "HOL-Library.AList"
begin

section \<open>Python values\<close>

text \<open>
  The compiler of \<^verbatim>\<open>python_zod_openapi\<close> works on a JSON document loaded into Python
  values. \<open>pyval\<close> is that value universe: \<^verbatim>\<open>None\<close>, \<^verbatim>\<open>bool\<close>, \<^verbatim>\<open>int\<close>, \<^verbatim>\<open>str\<close>,
  \<^verbatim>\<open>list\<close> and \<^verbatim>\<open>dict\<close> with string keys. A dict is an association list in insertion
  order (Python dicts iterate in insertion order); lookups read the first entry of a key
  and \<open>AList.update\<close> overwrites in place or appends, as \<^verbatim>\<open>d[k] = v\<close> does.
  JSON numbers with a fractional part (Python \<^verbatim>\<open>float\<close>) are outside the embedding. A
  Python string is held as the bytes of its UTF-8 encoding, so ASCII text is held as itself;
  the documents are ASCII text, and the character tests below are the ASCII restrictions
  of the Unicode-aware Python methods. Text outside ASCII arises from an ASCII document
  only where \<^verbatim>\<open>unquote\<close> decodes a percent-escape, and that text is only compared and
  concatenated.
\<close>

datatype pyval =
    PNone
  | PBool bool
  | PInt int
  | PStr string
  | PList "pyval list"
  | PDict "(string \<times> pyval) list"

datatype pyerror = TypeError | AttributeError | KeyError | ValueError | IndexError

type_synonym 'a result = "pyerror + 'a"

definition bind_r :: "'a result \<Rightarrow> ('a \<Rightarrow> 'b result) \<Rightarrow> 'b result" where
  "bind_r m f = (case m of Inl e \<Rightarrow> Inl e | Inr x \<Rightarrow> f x)"

text \<open>A list comprehension whose element expression may raise: the first error wins.\<close>

fun sequence_r :: "'a result list \<Rightarrow> 'a list result" where
  "sequence_r [] = Inr []"
| "sequence_r (Inl e # rs) = Inl e"
| "sequence_r (Inr x # rs) = (case sequence_r rs of Inl e \<Rightarrow> Inl e | Inr xs \<Rightarrow> Inr (x # xs))"

text \<open>\<^verbatim>\<open>bool(x)\<close>: Python truthiness.\<close>

fun truthy :: "pyval \<Rightarrow> bool" where
  "truthy PNone = False"
| "truthy (PBool b) = b"
| "truthy (PInt i) = (i \<noteq> 0)"
| "truthy (PStr s) = (s \<noteq> [])"
| "truthy (PList xs) = (xs \<noteq> [])"
| "truthy (PDict kvs) = (kvs \<noteq> [])"

text \<open>\<^verbatim>\<open>d.get(k)\<close> on a value already known to be a dict: \<^verbatim>\<open>None\<close> when the key is absent.\<close>

definition dget :: "(string \<times> pyval) list \<Rightarrow> string \<Rightarrow> pyval" where
  "dget d k = (case map_of d k of None \<Rightarrow> PNone | Some v \<Rightarrow> v)"

definition has_key :: "(string \<times> pyval) list \<Rightarrow> string \<Rightarrow> bool" where
  "has_key d k = (map_of d k \<noteq> None)"

fun is_dict :: "pyval \<Rightarrow> bool" where
  "is_dict (PDict _) = True"
| "is_dict _ = False"

fun is_list :: "pyval \<Rightarrow> bool" where
  "is_list (PList _) = True"
| "is_list _ = False"

fun is_str :: "pyval \<Rightarrow> bool" where
  "is_str (PStr _) = True"
| "is_str _ = False"

text \<open>\<^verbatim>\<open>isinstance(x, int)\<close>: \<^verbatim>\<open>bool\<close> is a subclass of \<^verbatim>\<open>int\<close>.\<close>

fun is_int :: "pyval \<Rightarrow> bool" where
  "is_int (PInt _) = True"
| "is_int (PBool _) = True"
| "is_int _ = False"

text \<open>Hashability, as needed by \<^verbatim>\<open>x in {..}\<close> and \<^verbatim>\<open>set(xs)\<close>: lists and dicts are unhashable.\<close>

fun hashable :: "pyval \<Rightarrow> bool" where
  "hashable (PList _) = False"
| "hashable (PDict _) = False"
| "hashable _ = True"

section \<open>Python string operations\<close>

definition digit_char :: "nat \<Rightarrow> char" where
  "digit_char n = ''0123456789abcdef'' ! (n mod 16)"

fun str_nat :: "nat \<Rightarrow> string" where
  "str_nat n = (if n < 10 then [digit_char n] else str_nat (n div 10) @ [digit_char (n mod 10)])"

declare str_nat.simps [simp del]

definition str_int :: "int \<Rightarrow> string" where
  "str_int i = (if i < 0 then CHR ''-'' # str_nat (nat (- i)) else str_nat (nat i))"

definition hex2 :: "nat \<Rightarrow> string" where
  "hex2 n = [digit_char (n div 16), digit_char (n mod 16)]"

definition is_upper_c :: "char \<Rightarrow> bool" where
  "is_upper_c c = (CHR ''A'' \<le> c \<and> c \<le> CHR ''Z'')"

definition is_lower_c :: "char \<Rightarrow> bool" where
  "is_lower_c c = (CHR ''a'' \<le> c \<and> c \<le> CHR ''z'')"

definition is_digit_c :: "char \<Rightarrow> bool" where
  "is_digit_c c = (CHR ''0'' \<le> c \<and> c \<le> CHR ''9'')"

definition is_alnum_c :: "char \<Rightarrow> bool" where
  "is_alnum_c c = (is_upper_c c \<or> is_lower_c c \<or> is_digit_c c)"

text \<open>\<^verbatim>\<open>str.isspace\<close> on ASCII: tab to carriage return, the four separators and the space.\<close>

definition is_space_c :: "char \<Rightarrow> bool" where
  "is_space_c c = (let n = (of_char c :: nat) in (9 \<le> n \<and> n \<le> 13) \<or> (28 \<le> n \<and> n \<le> 32))"

definition upper_c :: "char \<Rightarrow> char" where
  "upper_c c =
     (case map_of (zip ''abcdefghijklmnopqrstuvwxyz'' ''ABCDEFGHIJKLMNOPQRSTUVWXYZ'') c of
        Some u \<Rightarrow> u
      | None \<Rightarrow> c)"

definition lower_c :: "char \<Rightarrow> char" where
  "lower_c c =
     (case map_of (zip ''ABCDEFGHIJKLMNOPQRSTUVWXYZ'' ''abcdefghijklmnopqrstuvwxyz'') c of
        Some l \<Rightarrow> l
      | None \<Rightarrow> c)"

definition str_upper :: "string \<Rightarrow> string" where
  "str_upper s = map upper_c s"

definition str_lower :: "string \<Rightarrow> string" where
  "str_lower s = map lower_c s"

text \<open>\<^verbatim>\<open>s.capitalize()\<close>: first character upper-cased, the rest lower-cased.\<close>

definition capitalize :: "string \<Rightarrow> string" where
  "capitalize s = (case s of [] \<Rightarrow> [] | c # cs \<Rightarrow> upper_c c # str_lower cs)"

text \<open>\<^verbatim>\<open>s.islower()\<close>: at least one cased character and no upper-case one.\<close>

definition str_islower :: "string \<Rightarrow> bool" where
  "str_islower s = ((\<exists>c \<in> set s. is_lower_c c) \<and> (\<forall>c \<in> set s. \<not> is_upper_c c))"

definition startswith :: "string \<Rightarrow> string \<Rightarrow> bool" where
  "startswith s p = (take (length p) s = p)"

definition endswith :: "string \<Rightarrow> string \<Rightarrow> bool" where
  "endswith s p = (length p \<le> length s \<and> drop (length s - length p) s = p)"

text \<open>\<^verbatim>\<open>sep.join(parts)\<close>.\<close>

fun join :: "string \<Rightarrow> string list \<Rightarrow> string" where
  "join sep [] = []"
| "join sep [x] = x"
| "join sep (x # y # ys) = x @ sep @ join sep (y # ys)"

text \<open>
  \<^verbatim>\<open>s.split(sep)\<close> for a non-empty separator (every separator in the source is a
  non-empty literal): scan left to right, cut at each non-overlapping occurrence. \<open>skip\<close>
  counts the characters of a matched separator still to be dropped.
\<close>

fun split_aux :: "string \<Rightarrow> nat \<Rightarrow> string \<Rightarrow> string \<Rightarrow> string list" where
  "split_aux sep skip acc [] = [rev acc]"
| "split_aux sep skip acc (c # cs) =
     (if 0 < skip then split_aux sep (skip - 1) acc cs
      else if startswith (c # cs) sep then rev acc # split_aux sep (length sep - 1) [] cs
      else split_aux sep 0 (c # acc) cs)"

definition split :: "string \<Rightarrow> string \<Rightarrow> string list" where
  "split s sep = split_aux sep 0 [] s"

text \<open>
  Maximal runs of characters not satisfying \<open>p\<close>; empty runs are dropped. With
  \<open>p = is_space_c\<close> this is \<^verbatim>\<open>s.split()\<close>; with the complement of the ASCII alphanumerics it
  is the non-empty parts of \<^verbatim>\<open>re.split(r"[^A-Za-z0-9]+", s)\<close>.
\<close>

fun runs_aux :: "(char \<Rightarrow> bool) \<Rightarrow> string \<Rightarrow> string \<Rightarrow> string list" where
  "runs_aux p acc [] = (if acc = [] then [] else [rev acc])"
| "runs_aux p acc (c # cs) =
     (if p c then (if acc = [] then runs_aux p [] cs else rev acc # runs_aux p [] cs)
      else runs_aux p (c # acc) cs)"

definition split_ws :: "string \<Rightarrow> string list" where
  "split_ws s = runs_aux is_space_c [] s"

text \<open>\<^verbatim>\<open>s.strip(chars)\<close> and \<^verbatim>\<open>s.replace(a, b)\<close> for single characters.\<close>

definition strip_chars :: "string \<Rightarrow> string \<Rightarrow> string" where
  "strip_chars s chars =
     rev (dropWhile (\<lambda>c. c \<in> set chars) (rev (dropWhile (\<lambda>c. c \<in> set chars) s)))"

definition replace_c :: "char \<Rightarrow> char \<Rightarrow> string \<Rightarrow> string" where
  "replace_c a b s = map (\<lambda>c. if c = a then b else c) s"

text \<open>
  \<^verbatim>\<open>repr\<close> of a string: single quotes unless the text holds a single quote and no double
  quote; backslash and the chosen quote are escaped, tab, newline and carriage return use
  their letters, other control characters \<^verbatim>\<open>\xhh\<close>.
\<close>

definition repr_quote :: "string \<Rightarrow> char" where
  "repr_quote s = (if CHR 0x27 \<in> set s \<and> CHR 0x22 \<notin> set s then CHR 0x22 else CHR 0x27)"

definition repr_char :: "char \<Rightarrow> char \<Rightarrow> string" where
  "repr_char q c =
     (if c = q \<or> c = CHR 0x5C then [CHR 0x5C, c]
      else if c = CHR 0x09 then [CHR 0x5C, CHR ''t'']
      else if c = CHR 0x0A then [CHR 0x5C, CHR ''n'']
      else if c = CHR 0x0D then [CHR 0x5C, CHR ''r'']
      else if (of_char c :: nat) < 32 \<or> (of_char c :: nat) = 127
        then [CHR 0x5C, CHR ''x''] @ hex2 (of_char c)
      else [c])"

definition repr_str :: "string \<Rightarrow> string" where
  "repr_str s = [repr_quote s] @ concat (map (repr_char (repr_quote s)) s) @ [repr_quote s]"

fun repr :: "pyval \<Rightarrow> string" where
  "repr PNone = ''None''"
| "repr (PBool b) = (if b then ''True'' else ''False'')"
| "repr (PInt i) = str_int i"
| "repr (PStr s) = repr_str s"
| "repr (PList xs) = ''['' @ join '', '' (map repr xs) @ '']''"
| "repr (PDict kvs) =
     ''{'' @ join '', '' (map (\<lambda>(k, v). repr_str k @ '': '' @ repr v) kvs) @ ''}''"

text \<open>\<^verbatim>\<open>str(x)\<close>: the text itself for a string, \<^verbatim>\<open>repr\<close> otherwise.\<close>

definition str_of :: "pyval \<Rightarrow> string" where
  "str_of v = (case v of PStr s \<Rightarrow> s | _ \<Rightarrow> repr v)"

text \<open>
  \<^verbatim>\<open>urllib.parse.unquote\<close> (with its defaults \<^verbatim>\<open>encoding='utf-8'\<close>, \<^verbatim>\<open>errors='replace'\<close>).
  \<open>unquote_to_bytes\<close> turns each \<^verbatim>\<open>%hh\<close> with two hexadecimal digits into the byte of that
  value and keeps every other \<^verbatim>\<open>%\<close>. \<open>utf8_replace\<close> is \<^verbatim>\<open>bytes.decode('utf-8', 'replace')\<close>,
  its result again held as UTF-8: a well-formed sequence is kept, and every byte that
  cannot start a sequence, and every longest well-formed beginning of a sequence that is
  not completed, becomes one \<^verbatim>\<open>U+FFFD\<close> (the bytes \<^verbatim>\<open>EF BF BD\<close>). \<open>unquote\<close> decodes each
  maximal run of ASCII characters in this way and keeps the characters between the runs.
\<close>

definition hex_val :: "char \<Rightarrow> nat option" where
  "hex_val c =
     (if is_digit_c c then Some (of_char c - 48)
      else if CHR ''a'' \<le> c \<and> c \<le> CHR ''f'' then Some (of_char c - 87)
      else if CHR ''A'' \<le> c \<and> c \<le> CHR ''F'' then Some (of_char c - 55)
      else None)"

fun unquote_to_bytes :: "string \<Rightarrow> string" where
  "unquote_to_bytes (c # h1 # h2 # rest) =
     (if c = CHR ''%'' then
        (case (hex_val h1, hex_val h2) of
           (Some a, Some b) \<Rightarrow> char_of (16 * a + b) # unquote_to_bytes rest
         | _ \<Rightarrow> c # unquote_to_bytes (h1 # h2 # rest))
      else c # unquote_to_bytes (h1 # h2 # rest))"
| "unquote_to_bytes s = s"

definition is_ascii_c :: "char \<Rightarrow> bool" where
  "is_ascii_c c = ((of_char c :: nat) < 128)"

definition is_continuation :: "char \<Rightarrow> bool" where
  "is_continuation c = (128 \<le> (of_char c :: nat) \<and> (of_char c :: nat) < 192)"

text \<open>The length of the sequence that a byte starts; 0 for a byte that starts none.\<close>

definition sequence_length :: "char \<Rightarrow> nat" where
  "sequence_length c =
     (let b = (of_char c :: nat) in
      if b < 128 then 1
      else if b < 194 then 0
      else if b < 224 then 2
      else if b < 240 then 3
      else if b < 245 then 4
      else 0)"

text \<open>
  The second byte of a sequence: a continuation byte, in a narrower range after the lead
  bytes \<^verbatim>\<open>E0\<close>, \<^verbatim>\<open>ED\<close>, \<^verbatim>\<open>F0\<close> and \<^verbatim>\<open>F4\<close> (no overlong forms, no surrogates, nothing above
  \<^verbatim>\<open>U+10FFFF\<close>).
\<close>

definition second_ok :: "char \<Rightarrow> char \<Rightarrow> bool" where
  "second_ok lead c =
     (let l = (of_char lead :: nat); b = (of_char c :: nat) in
      if l = 224 then 160 \<le> b \<and> b < 192
      else if l = 237 then 128 \<le> b \<and> b < 160
      else if l = 240 then 144 \<le> b \<and> b < 192
      else if l = 244 then 128 \<le> b \<and> b < 144
      else 128 \<le> b \<and> b < 192)"

text \<open>How many of the bytes after the lead byte continue a sequence of length \<open>n\<close>.\<close>

definition continuation_count :: "char \<Rightarrow> string \<Rightarrow> nat \<Rightarrow> nat" where
  "continuation_count lead rest n =
     (case rest of
        [] \<Rightarrow> 0
      | b # bs \<Rightarrow>
          if second_ok lead b then Suc (length (takeWhile is_continuation (take (n - 2) bs)))
          else 0)"

definition replacement_character :: string where
  "replacement_character = [char_of (239 :: nat), char_of (191 :: nat), char_of (189 :: nat)]"

function utf8_replace :: "string \<Rightarrow> string" where
  "utf8_replace [] = []"
| "utf8_replace (c # rest) =
     (if sequence_length c = 1 then c # utf8_replace rest
      else if sequence_length c = 0 then replacement_character @ utf8_replace rest
      else if continuation_count c rest (sequence_length c) = sequence_length c - 1
      then c # take (sequence_length c - 1) rest @ utf8_replace (drop (sequence_length c - 1) rest)
      else replacement_character
           @ utf8_replace (drop (continuation_count c rest (sequence_length c)) rest))"
  by pat_completeness auto
termination
  by (relation "measure length") auto

function unquote :: "string \<Rightarrow> string" where
  "unquote [] = []"
| "unquote (c # rest) =
     (if is_ascii_c c
      then utf8_replace (unquote_to_bytes (c # takeWhile is_ascii_c rest))
           @ unquote (dropWhile is_ascii_c rest)
      else c # takeWhile (\<lambda>x. \<not> is_ascii_c x) rest
           @ unquote (dropWhile (\<lambda>x. \<not> is_ascii_c x) rest))"
  by pat_completeness auto
termination
  by (relation "measure length") (auto simp: length_dropWhile_le less_Suc_eq_le)

text \<open>\<^verbatim>\<open>keyword.iskeyword\<close>: the hard keywords of Python 3.\<close>

definition kwlist :: "string list" where
  "kwlist = [''False'', ''None'', ''True'', ''and'', ''as'', ''assert'', ''async'', ''await'',
     ''break'', ''class'', ''continue'', ''def'', ''del'', ''elif'', ''else'', ''except'',
     ''finally'', ''for'', ''from'', ''global'', ''if'', ''import'', ''in'', ''is'', ''lambda'',
     ''nonlocal'', ''not'', ''or'', ''pass'', ''raise'', ''return'', ''try'', ''while'', ''with'',
     ''yield'']"

definition iskeyword :: "string \<Rightarrow> bool" where
  "iskeyword s = (s \<in> set kwlist)"

section \<open>registry.py: the custom format and primitive registry\<close>

definition SUPPORTED_STRING_FORMATS :: "string list" where
  "SUPPORTED_STRING_FORMATS = [''color-hex'', ''date'', ''date-time'', ''email'', ''iso-date'',
     ''iso-date-time'', ''objectid'', ''uri'', ''url'', ''uuid'']"

text \<open>
  A registration is a \<^verbatim>\<open>TypedDict\<close>: \<^verbatim>\<open>schema_exported_variable_name\<close> and \<^verbatim>\<open>type\<close> are strings;
  \<^verbatim>\<open>format\<close> and \<^verbatim>\<open>formats\<close> are read with \<^verbatim>\<open>.get\<close> and tested with \<^verbatim>\<open>isinstance\<close>, so they
  stay dynamic values (\<open>PNone\<close> when the key is absent).
\<close>

record registration =
  schema_exported_variable_name :: string
  reg_type :: string
  reg_format :: pyval
  reg_formats :: pyval

text \<open>
  \<^verbatim>\<open>PydanticSchemaRegistry\<close>: the module keeps one process-wide instance; the model passes
  it explicitly. \<^verbatim>\<open>_schema_ids\<close> is keyed by \<^verbatim>\<open>id(schema)\<close>, an object identity, given
  here as a number.
\<close>

record PydanticSchemaRegistry =
  string_format_to_name :: "(string \<times> string) list"
  primitive_type_to_name :: "(string \<times> string) list"
  schema_ids :: "(nat \<times> registration) list"

definition new_registry :: PydanticSchemaRegistry where
  "new_registry = \<lparr>string_format_to_name = [], primitive_type_to_name = [], schema_ids = []\<rparr>"

text \<open>
  A registry method mutates the instance and may raise: the result is the error, if any,
  together with the state the instance is left in.
\<close>

definition register_string_format ::
  "PydanticSchemaRegistry \<Rightarrow> string \<Rightarrow> registration \<Rightarrow> pyerror option \<times> PydanticSchemaRegistry" where
  "register_string_format r fmt reg =
     (if fmt \<notin> set SUPPORTED_STRING_FORMATS then (Some ValueError, r)
      else
        (case map_of (string_format_to_name r) fmt of
           Some existing \<Rightarrow>
             if existing \<noteq> [] \<and> existing \<noteq> schema_exported_variable_name reg
             then (Some ValueError, r)
             else (None, r\<lparr>string_format_to_name :=
                     AList.update fmt (schema_exported_variable_name reg) (string_format_to_name r)\<rparr>)
         | None \<Rightarrow>
             (None, r\<lparr>string_format_to_name :=
                 AList.update fmt (schema_exported_variable_name reg) (string_format_to_name r)\<rparr>)))"

text \<open>The loop \<^verbatim>\<open>for format_item in format_values\<close>: items that are not strings are skipped.\<close>

fun register_format_items ::
  "PydanticSchemaRegistry \<Rightarrow> pyval list \<Rightarrow> registration \<Rightarrow> pyerror option \<times> PydanticSchemaRegistry" where
  "register_format_items r [] reg = (None, r)"
| "register_format_items r (PStr f # items) reg =
     (case register_string_format r f reg of
        (Some e, r') \<Rightarrow> (Some e, r')
      | (None, r') \<Rightarrow> register_format_items r' items reg)"
| "register_format_items r (_ # items) reg = register_format_items r items reg"

definition set_schema_id :: "nat \<Rightarrow> registration \<Rightarrow> PydanticSchemaRegistry \<Rightarrow> PydanticSchemaRegistry" where
  "set_schema_id sid reg r = r\<lparr>schema_ids := AList.update sid reg (schema_ids r)\<rparr>"

definition register ::
  "PydanticSchemaRegistry \<Rightarrow> nat \<Rightarrow> registration \<Rightarrow> pyerror option \<times> PydanticSchemaRegistry" where
  "register r sid reg =
     (case (if reg_type reg = ''string'' then reg_format reg else PNone) of
        PStr format_value \<Rightarrow>
          (case register_string_format r format_value reg of
             (Some e, r') \<Rightarrow> (Some e, r')
           | (None, r') \<Rightarrow> (None, set_schema_id sid reg r'))
      | _ \<Rightarrow>
        (case (if reg_type reg = ''string'' then reg_formats reg else PNone) of
           PList format_values \<Rightarrow>
             (case register_format_items r format_values reg of
                (Some e, r') \<Rightarrow> (Some e, r')
              | (None, r') \<Rightarrow> (None, set_schema_id sid reg r'))
         | _ \<Rightarrow>
           if reg_type reg \<in> {''number'', ''integer'', ''boolean''} then
             (case map_of (primitive_type_to_name r) (reg_type reg) of
                Some existing \<Rightarrow>
                  if existing \<noteq> [] \<and> existing \<noteq> schema_exported_variable_name reg
                  then (Some ValueError, r)
                  else (None, set_schema_id sid reg (r\<lparr>primitive_type_to_name :=
                          AList.update (reg_type reg) (schema_exported_variable_name reg)
                            (primitive_type_to_name r)\<rparr>))
              | None \<Rightarrow>
                  (None, set_schema_id sid reg (r\<lparr>primitive_type_to_name :=
                     AList.update (reg_type reg) (schema_exported_variable_name reg)
                       (primitive_type_to_name r)\<rparr>)))
           else (Some ValueError, r)))"

definition clear :: "PydanticSchemaRegistry \<Rightarrow> PydanticSchemaRegistry" where
  "clear r = r\<lparr>string_format_to_name := [], primitive_type_to_name := [], schema_ids := []\<rparr>"

definition get_schema_exported_variable_name_for_string_format ::
  "PydanticSchemaRegistry \<Rightarrow> string \<Rightarrow> string option" where
  "get_schema_exported_variable_name_for_string_format r format_value =
     (if format_value \<notin> set SUPPORTED_STRING_FORMATS then None
      else map_of (string_format_to_name r) format_value)"

definition get_schema_exported_variable_name_for_primitive_type ::
  "PydanticSchemaRegistry \<Rightarrow> string \<Rightarrow> string option" where
  "get_schema_exported_variable_name_for_primitive_type r type_value =
     map_of (primitive_type_to_name r) type_value"

definition is_registered :: "PydanticSchemaRegistry \<Rightarrow> nat \<Rightarrow> bool" where
  "is_registered r sid = (map_of (schema_ids r) sid \<noteq> None)"

section \<open>type\_render.py and types/*.py: scalar and container type expressions\<close>

text \<open>
  Source names that start with an underscore (\<^verbatim>\<open>_schema_to_type_expr\<close>, \<^verbatim>\<open>_wrap_nullable\<close>, ...)
  are written without it. \<open>sq\<close> is the single quote of the generated Python text.
\<close>

definition sq :: string where
  "sq = [CHR 0x27]"

definition wrap_annotated :: "string \<Rightarrow> string list \<Rightarrow> string" where
  "wrap_annotated base metadata =
     (if metadata = [] then base else ''Annotated['' @ base @ '', '' @ join '', '' metadata @ '']'')"

definition format_openapi_meta :: "(string \<times> pyval) list \<Rightarrow> string" where
  "format_openapi_meta meta =
     ''json_schema_extra={'' @ sq @ ''openapi'' @ sq @ '': '' @ repr (PDict (sort_key fst meta)) @ ''}''"

definition literal_expr :: "pyval list \<Rightarrow> string" where
  "literal_expr values = ''Literal['' @ join '', '' (map repr values) @ '']''"

text \<open>
  \<^verbatim>\<open>convert_openapi_string_to_pydantic\<close>, after the enum and custom-alias tests: \<open>fmt\<close> is the
  non-empty string format, if any.
\<close>

definition string_decorated :: "string option \<Rightarrow> (string \<times> pyval) list \<Rightarrow> string" where
  "string_decorated fmt schema =
     (let base = (if fmt = Some ''email'' then ''EmailStr''
                  else if fmt = Some ''url'' \<or> fmt = Some ''uri'' then ''AnyUrl''
                  else if fmt = Some ''uuid'' then ''UUID''
                  else ''str'');
          min_length = dget schema ''minLength'';
          max_length = dget schema ''maxLength'';
          pattern0 = dget schema ''pattern'';
          pattern_is_explicit = is_str pattern0;
          pattern = (if fmt = Some ''color-hex'' \<and> \<not> pattern_is_explicit
                     then PStr ''^[a-fA-F0-9]{6}$'' else pattern0);
          field_args =
            (if base = ''str'' then [''strict=True''] else []) @
            (if is_int min_length then [''min_length='' @ str_of min_length] else []) @
            (if is_int max_length then [''max_length='' @ str_of max_length] else []) @
            (case pattern of PStr p \<Rightarrow> [''pattern='' @ repr_str p] | _ \<Rightarrow> []);
          meta =
            (case fmt of Some f \<Rightarrow> [(''format'', PStr f)] | None \<Rightarrow> []) @
            (if is_str pattern \<and> pattern_is_explicit then [(''pattern'', pattern)] else []) @
            (if is_int min_length then [(''minLength'', min_length)] else []) @
            (if is_int max_length then [(''maxLength'', max_length)] else []);
          field_args2 = field_args @ (if meta \<noteq> [] then [format_openapi_meta meta] else [])
      in if field_args2 \<noteq> []
         then wrap_annotated base [''Field('' @ join '', '' field_args2 @ '')'']
         else base)"

definition convert_openapi_string_to_pydantic ::
  "PydanticSchemaRegistry \<Rightarrow> (string \<times> pyval) list \<Rightarrow> string" where
  "convert_openapi_string_to_pydantic r schema =
     (case dget schema ''enum'' of
        PList values \<Rightarrow> literal_expr values
      | _ \<Rightarrow>
        (case dget schema ''format'' of
           PStr fmt \<Rightarrow>
             if fmt \<noteq> [] then
               (case get_schema_exported_variable_name_for_string_format r fmt of
                  Some custom_schema \<Rightarrow>
                    if custom_schema \<noteq> [] then custom_schema
                    else string_decorated (Some fmt) schema
                | None \<Rightarrow> string_decorated (Some fmt) schema)
             else string_decorated None schema
         | _ \<Rightarrow> string_decorated None schema))"

definition number_decorated :: "(string \<times> pyval) list \<Rightarrow> string" where
  "number_decorated schema =
     (let base = (if dget schema ''type'' = PStr ''integer'' then ''int'' else ''float'');
          minimum = dget schema ''minimum'';
          maximum = dget schema ''maximum'';
          field_args =
            [''strict=True''] @
            (if is_int minimum then [''ge='' @ str_of minimum] else []) @
            (if is_int maximum then [''le='' @ str_of maximum] else []);
          meta =
            (if is_int minimum then [(''minimum'', minimum)] else []) @
            (if is_int maximum then [(''maximum'', maximum)] else []);
          field_args2 = field_args @ (if meta \<noteq> [] then [format_openapi_meta meta] else [])
      in wrap_annotated base [''Field('' @ join '', '' field_args2 @ '')''])"

text \<open>
  \<^verbatim>\<open>schema_type in {"number", "integer", "boolean"}\<close> hashes \<^verbatim>\<open>schema_type\<close>: a list or dict
  there raises \<^verbatim>\<open>TypeError\<close>.
\<close>

definition convert_openapi_number_to_pydantic ::
  "PydanticSchemaRegistry \<Rightarrow> (string \<times> pyval) list \<Rightarrow> string result" where
  "convert_openapi_number_to_pydantic r schema =
     (case dget schema ''enum'' of
        PList values \<Rightarrow> Inr (literal_expr values)
      | _ \<Rightarrow>
        (case dget schema ''type'' of
           PList _ \<Rightarrow> Inl TypeError
         | PDict _ \<Rightarrow> Inl TypeError
         | PStr schema_type \<Rightarrow>
             if schema_type \<in> {''number'', ''integer'', ''boolean''} then
               (case get_schema_exported_variable_name_for_primitive_type r schema_type of
                  Some custom \<Rightarrow> if custom \<noteq> [] then Inr custom else Inr (number_decorated schema)
                | None \<Rightarrow> Inr (number_decorated schema))
             else Inr (number_decorated schema)
         | _ \<Rightarrow> Inr (number_decorated schema)))"

definition convert_openapi_boolean_to_pydantic ::
  "PydanticSchemaRegistry \<Rightarrow> (string \<times> pyval) list \<Rightarrow> string" where
  "convert_openapi_boolean_to_pydantic r schema =
     (case get_schema_exported_variable_name_for_primitive_type r ''boolean'' of
        Some custom \<Rightarrow>
          if custom \<noteq> [] then custom else wrap_annotated ''bool'' [''Field(strict=True)'']
      | None \<Rightarrow> wrap_annotated ''bool'' [''Field(strict=True)''])"

definition convert_openapi_array_to_pydantic ::
  "(string \<times> pyval) list \<Rightarrow> (pyval \<Rightarrow> string result) \<Rightarrow> string result" where
  "convert_openapi_array_to_pydantic schema convert_schema =
     bind_r (case dget schema ''items'' of
               PDict items \<Rightarrow> convert_schema (PDict items)
             | _ \<Rightarrow> Inr ''Any'')
       (\<lambda>item_type.
          let base = ''list['' @ item_type @ '']'';
              min_items = dget schema ''minItems'';
              max_items = dget schema ''maxItems'';
              field_args =
                (if is_int min_items then [''min_length='' @ str_of min_items] else []) @
                (if is_int max_items then [''max_length='' @ str_of max_items] else []);
              meta =
                (if is_int min_items then [(''minItems'', min_items)] else []) @
                (if is_int max_items then [(''maxItems'', max_items)] else []);
              field_args2 = field_args @ (if meta \<noteq> [] then [format_openapi_meta meta] else [])
          in if field_args2 \<noteq> []
             then Inr (wrap_annotated base [''Field('' @ join '', '' field_args2 @ '')''])
             else Inr base)"

definition convert_openapi_object_to_pydantic ::
  "(string \<times> pyval) list \<Rightarrow> (pyval \<Rightarrow> string result) \<Rightarrow> string result" where
  "convert_openapi_object_to_pydantic schema convert_schema =
     (if \<not> truthy (dget schema ''properties'') \<and> \<not> truthy (dget schema ''additionalProperties'')
      then Inr ''dict[str, Any]''
      else
        (case dget schema ''additionalProperties'' of
           PDict additional \<Rightarrow>
             bind_r (convert_schema (PDict additional)) (\<lambda>t. Inr (''dict[str, '' @ t @ '']''))
         | _ \<Rightarrow> Inr ''dict[str, Any]''))"

definition union_decorate :: "(string \<times> pyval) list \<Rightarrow> string \<Rightarrow> string" where
  "union_decorate schema union_expr =
     (let discriminator = dget schema ''discriminator'';
          named = (case discriminator of
                     PDict disc \<Rightarrow>
                       (case dget disc ''propertyName'' of
                          PStr property_name \<Rightarrow>
                            if property_name \<noteq> [] then Some property_name else None
                        | _ \<Rightarrow> None)
                   | _ \<Rightarrow> None);
          field_args = (case named of
                          Some property_name \<Rightarrow> [''discriminator='' @ repr_str property_name]
                        | None \<Rightarrow> []);
          meta = (case named of Some _ \<Rightarrow> [(''discriminator'', discriminator)] | None \<Rightarrow> []);
          field_args2 = field_args @ (if meta \<noteq> [] then [format_openapi_meta meta] else [])
      in if field_args2 \<noteq> []
         then wrap_annotated union_expr [''Field('' @ join '', '' field_args2 @ '')'']
         else union_expr)"

text \<open>\<^verbatim>\<open>convert_openapi_union_to_pydantic\<close> reads the members from \<^verbatim>\<open>oneOf\<close> only.\<close>

definition convert_openapi_union_to_pydantic ::
  "(string \<times> pyval) list \<Rightarrow> (pyval \<Rightarrow> string result) \<Rightarrow> string result" where
  "convert_openapi_union_to_pydantic schema convert_schema =
     (case dget schema ''oneOf'' of
        PList items \<Rightarrow>
          bind_r (sequence_r (map convert_schema (filter is_dict items)))
            (\<lambda>item_types.
               case item_types of
                 [] \<Rightarrow> Inr ''Any''
               | [t] \<Rightarrow> Inr (union_decorate schema t)
               | _ \<Rightarrow> Inr (union_decorate schema (''Union['' @ join '', '' item_types @ '']'')))
      | _ \<Rightarrow> Inr ''Any'')"

definition convert_openapi_intersection_to_pydantic ::
  "(string \<times> pyval) list \<Rightarrow> (pyval \<Rightarrow> string result) \<Rightarrow> string result" where
  "convert_openapi_intersection_to_pydantic schema convert_schema =
     (case dget schema ''allOf'' of
        PList items \<Rightarrow>
          bind_r (sequence_r (map convert_schema (filter is_dict items)))
            (\<lambda>parts.
               case parts of
                 [] \<Rightarrow> Inr ''Any''
               | [t] \<Rightarrow> Inr t
               | _ \<Rightarrow> Inr (''all_of('' @ join '', '' parts @ '')''))
      | _ \<Rightarrow> Inr ''Any'')"

section \<open>to\_python.py: the type expression synthesizer\<close>

definition components_prefix :: string where
  "components_prefix = ''#/components/schemas/''"

text \<open>
  \<^verbatim>\<open>ref.split("#/components/schemas/")[1]\<close> is read only when \<^verbatim>\<open>ref\<close> starts with the prefix,
  where the split has at least two parts (lemma \<open>split_prefix_length\<close> below).
\<close>

definition decode_ref_name :: "string \<Rightarrow> string" where
  "decode_ref_name ref =
     (if startswith ref components_prefix then unquote (split ref components_prefix ! 1) else ref)"

definition wrap_nullable :: "string \<Rightarrow> (string \<times> pyval) list \<Rightarrow> string" where
  "wrap_nullable expr schema =
     (if dget schema ''nullable'' = PBool True then ''Optional['' @ expr @ '']'' else expr)"

lemma bind_r_cong [fundef_cong]:
  "m = m' \<Longrightarrow> (\<And>x. m' = Inr x \<Longrightarrow> f x = g x) \<Longrightarrow> bind_r m f = bind_r m' g"
  by (auto simp: bind_r_def split: sum.splits)

lemma convert_openapi_union_cong [fundef_cong]:
  "schema = schema' \<Longrightarrow>
   (\<And>items x. dget schema' ''oneOf'' = PList items \<Longrightarrow> x \<in> set items \<Longrightarrow> is_dict x \<Longrightarrow> f x = g x) \<Longrightarrow>
   convert_openapi_union_to_pydantic schema f = convert_openapi_union_to_pydantic schema' g"
  unfolding convert_openapi_union_to_pydantic_def
  by (auto split: pyval.splits intro!: arg_cong[where f=sequence_r] arg_cong2[where f=bind_r])

lemma convert_openapi_intersection_cong [fundef_cong]:
  "schema = schema' \<Longrightarrow>
   (\<And>items x. dget schema' ''allOf'' = PList items \<Longrightarrow> x \<in> set items \<Longrightarrow> is_dict x \<Longrightarrow> f x = g x) \<Longrightarrow>
   convert_openapi_intersection_to_pydantic schema f = convert_openapi_intersection_to_pydantic schema' g"
  unfolding convert_openapi_intersection_to_pydantic_def
  by (auto split: pyval.splits intro!: arg_cong[where f=sequence_r] arg_cong2[where f=bind_r])

lemma convert_openapi_array_cong [fundef_cong]:
  "schema = schema' \<Longrightarrow>
   (\<And>items. dget schema' ''items'' = PDict items \<Longrightarrow> f (PDict items) = g (PDict items)) \<Longrightarrow>
   convert_openapi_array_to_pydantic schema f = convert_openapi_array_to_pydantic schema' g"
  unfolding convert_openapi_array_to_pydantic_def
  by (auto split: pyval.splits)

lemma convert_openapi_object_cong [fundef_cong]:
  "schema = schema' \<Longrightarrow>
   (\<And>a. dget schema' ''additionalProperties'' = PDict a \<Longrightarrow> f (PDict a) = g (PDict a)) \<Longrightarrow>
   convert_openapi_object_to_pydantic schema f = convert_openapi_object_to_pydantic schema' g"
  unfolding convert_openapi_object_to_pydantic_def
  by (auto split: pyval.splits)

lemma size_map_of: "map_of d k = Some v \<Longrightarrow> size v < size (PDict d)"
  by (induction d) (auto split: if_splits)

lemma size_dget: "dget d k = v \<Longrightarrow> v \<noteq> PNone \<Longrightarrow> size v < size (PDict d)"
  by (auto simp: dget_def split: option.splits dest: size_map_of)

lemma size_list_member: "x \<in> set xs \<Longrightarrow> size x < size (PList xs)"
  by (induction xs) auto

lemma size_dget_member: "dget d k = PList xs \<Longrightarrow> x \<in> set xs \<Longrightarrow> size x < size (PDict d)"
  using size_dget[of d k "PList xs"] size_list_member[of x xs] by simp

text \<open>
  \<^verbatim>\<open>_schema_to_type_expr\<close>. The format registry, a module global in the source, is the
  first argument. \<^verbatim>\<open>schema_type in {"number", "integer"}\<close> hashes \<^verbatim>\<open>schema_type\<close> and raises
  \<^verbatim>\<open>TypeError\<close> on a list or dict.
\<close>

function (sequential) schema_to_type_expr :: "PydanticSchemaRegistry \<Rightarrow> pyval \<Rightarrow> string result" where
  "schema_to_type_expr r (PDict schema) =
     (case dget schema ''$ref'' of
        PStr ref \<Rightarrow>
          if \<not> startswith ref components_prefix then Inr (wrap_nullable ''Any'' schema)
          else Inr (wrap_nullable (decode_ref_name ref) schema)
      | _ \<Rightarrow>
        if is_list (dget schema ''oneOf'') then
          bind_r (convert_openapi_union_to_pydantic schema (schema_to_type_expr r))
            (\<lambda>expr. Inr (wrap_nullable expr schema))
        else if is_list (dget schema ''allOf'') then
          bind_r (convert_openapi_intersection_to_pydantic schema (schema_to_type_expr r))
            (\<lambda>expr. Inr (wrap_nullable expr schema))
        else if dget schema ''type'' = PStr ''string'' then
          Inr (wrap_nullable (convert_openapi_string_to_pydantic r schema) schema)
        else if \<not> hashable (dget schema ''type'') then Inl TypeError
        else if dget schema ''type'' \<in> {PStr ''number'', PStr ''integer''} then
          bind_r (convert_openapi_number_to_pydantic r schema)
            (\<lambda>expr. Inr (wrap_nullable expr schema))
        else if dget schema ''type'' = PStr ''boolean'' then
          Inr (wrap_nullable (convert_openapi_boolean_to_pydantic r schema) schema)
        else if dget schema ''type'' = PStr ''array'' then
          bind_r (convert_openapi_array_to_pydantic schema (schema_to_type_expr r))
            (\<lambda>expr. Inr (wrap_nullable expr schema))
        else if dget schema ''type'' = PStr ''object'' \<or> has_key schema ''properties'' then
          bind_r (convert_openapi_object_to_pydantic schema (schema_to_type_expr r))
            (\<lambda>expr. Inr (wrap_nullable expr schema))
        else
          (case dget schema ''enum'' of
             PList values \<Rightarrow> Inr (wrap_nullable (literal_expr values) schema)
           | _ \<Rightarrow> Inr (wrap_nullable ''Any'' schema)))"
| "schema_to_type_expr r _ = Inr ''Any''"
  by pat_completeness auto
termination
  by (relation "measure (\<lambda>(r, s). size s)")
     (auto dest: size_dget_member size_dget)

section \<open>schema\_dedup.py: fingerprints and the dedup registry\<close>

lemma size_dict_value: "(k, v) \<in> set kvs \<Longrightarrow> size v < size (PDict kvs)"
  by (induction kvs) auto

text \<open>\<^verbatim>\<open>_sort_object_deep\<close>: dict keys sorted at every level, lists kept in order.\<close>

function sort_object_deep :: "pyval \<Rightarrow> pyval" where
  "sort_object_deep (PList xs) = PList (map sort_object_deep xs)"
| "sort_object_deep (PDict kvs) =
     PDict (map (\<lambda>(key, v). (key, sort_object_deep v)) (sort_key fst kvs))"
| "sort_object_deep PNone = PNone"
| "sort_object_deep (PBool b) = PBool b"
| "sort_object_deep (PInt i) = PInt i"
| "sort_object_deep (PStr s) = PStr s"
  by pat_completeness auto
termination
  by (relation "measure size") (auto dest: size_dict_value size_list_member)

text \<open>
  \<^verbatim>\<open>json.dumps(obj, sort_keys=True)\<close> with the default separators and \<^verbatim>\<open>ensure_ascii\<close>:
  quote and backslash are escaped, the five named control characters use their letters,
  every other character outside the printable ASCII range is written \<^verbatim>\<open>\u00hh\<close>.
\<close>

definition json_char :: "char \<Rightarrow> string" where
  "json_char c =
     (if c = CHR 0x22 then [CHR 0x5C, CHR 0x22]
      else if c = CHR 0x5C then [CHR 0x5C, CHR 0x5C]
      else if c = CHR 0x0A then [CHR 0x5C, CHR ''n'']
      else if c = CHR 0x0D then [CHR 0x5C, CHR ''r'']
      else if c = CHR 0x09 then [CHR 0x5C, CHR ''t'']
      else if c = CHR 0x08 then [CHR 0x5C, CHR ''b'']
      else if c = CHR 0x0C then [CHR 0x5C, CHR ''f'']
      else if (of_char c :: nat) < 32 \<or> 126 < (of_char c :: nat)
        then [CHR 0x5C, CHR ''u'', CHR ''0'', CHR ''0''] @ hex2 (of_char c)
      else [c])"

definition json_str :: "string \<Rightarrow> string" where
  "json_str s = [CHR 0x22] @ concat (map json_char s) @ [CHR 0x22]"

function json_dumps :: "pyval \<Rightarrow> string" where
  "json_dumps PNone = ''null''"
| "json_dumps (PBool b) = (if b then ''true'' else ''false'')"
| "json_dumps (PInt i) = str_int i"
| "json_dumps (PStr s) = json_str s"
| "json_dumps (PList xs) = ''['' @ join '', '' (map json_dumps xs) @ '']''"
| "json_dumps (PDict kvs) =
     ''{'' @ join '', '' (map (\<lambda>(key, v). json_str key @ '': '' @ json_dumps v) (sort_key fst kvs))
       @ ''}''"
  by pat_completeness auto
termination
  by (relation "measure size") (auto dest: size_dict_value size_list_member)

definition get_schema_fingerprint :: "pyval \<Rightarrow> string" where
  "get_schema_fingerprint schema = json_dumps (sort_object_deep schema)"

record SchemaRegistry =
  fingerprint_to_name :: "(string \<times> string) list"

definition create_schema_registry :: SchemaRegistry where
  "create_schema_registry = \<lparr>fingerprint_to_name = []\<rparr>"

record RegisterSchemaResult =
  is_new :: bool
  canonical_name :: string

text \<open>
  \<^verbatim>\<open>register_schema\<close> mutates the registry it is given: the model returns the result and
  the registry afterwards. \<^verbatim>\<open>if existing:\<close> is a truthiness test, so a stored empty name
  counts as no entry.
\<close>

definition register_schema ::
  "SchemaRegistry \<Rightarrow> string \<Rightarrow> pyval \<Rightarrow> RegisterSchemaResult \<times> SchemaRegistry" where
  "register_schema registry name schema =
     (let fingerprint = get_schema_fingerprint schema in
      case map_of (fingerprint_to_name registry) fingerprint of
        Some existing \<Rightarrow>
          if existing \<noteq> [] then (\<lparr>is_new = False, canonical_name = existing\<rparr>, registry)
          else (\<lparr>is_new = True, canonical_name = name\<rparr>,
                registry\<lparr>fingerprint_to_name :=
                  AList.update fingerprint name (fingerprint_to_name registry)\<rparr>)
      | None \<Rightarrow>
          (\<lparr>is_new = True, canonical_name = name\<rparr>,
           registry\<lparr>fingerprint_to_name :=
             AList.update fingerprint name (fingerprint_to_name registry)\<rparr>))"

definition pre_register_schema :: "SchemaRegistry \<Rightarrow> string \<Rightarrow> string \<Rightarrow> SchemaRegistry" where
  "pre_register_schema registry name fingerprint =
     registry\<lparr>fingerprint_to_name := AList.update fingerprint name (fingerprint_to_name registry)\<rparr>"

text \<open>\<^verbatim>\<open>extract_error_code\<close> calls \<^verbatim>\<open>schema.get\<close>: a schema that is not a dict raises \<^verbatim>\<open>AttributeError\<close>.\<close>

definition extract_error_code :: "pyval \<Rightarrow> string option result" where
  "extract_error_code schema =
     (case schema of
        PDict s \<Rightarrow>
          (case dget s ''properties'' of
             PDict props \<Rightarrow>
               (case dget props ''error'' of
                  PDict error_obj \<Rightarrow>
                    (case dget error_obj ''properties'' of
                       PDict error_props \<Rightarrow>
                         (case dget error_props ''code'' of
                            PDict code_schema \<Rightarrow>
                              (case dget code_schema ''enum'' of
                                 PList [code] \<Rightarrow> Inr (Some (str_of code))
                               | _ \<Rightarrow> Inr None)
                          | _ \<Rightarrow> Inr None)
                     | _ \<Rightarrow> Inr None)
                | _ \<Rightarrow> Inr None)
           | _ \<Rightarrow> Inr None)
      | _ \<Rightarrow> Inl AttributeError)"

definition error_code_to_pascal_case :: "string \<Rightarrow> string" where
  "error_code_to_pascal_case code = concat (map capitalize (split code ''_''))"

definition generate_common_error_schema_name :: "string \<Rightarrow> string" where
  "generate_common_error_schema_name error_code = error_code_to_pascal_case error_code @ ''Error''"

record CommonSchema =
  cs_name :: string
  cs_schema :: pyval
  cs_fingerprint :: string
  cs_count :: nat

record NamedSchema =
  ns_name :: string
  ns_schema :: pyval

text \<open>The value kept per fingerprint by \<^verbatim>\<open>find_common_schemas\<close>.\<close>

record fp_entry =
  fe_schema :: pyval
  fe_names :: "string list"
  fe_error_code :: "string option"

text \<open>The first loop of \<^verbatim>\<open>find_common_schemas\<close>: one step per collected schema.\<close>

fun group_fingerprints ::
  "NamedSchema list \<Rightarrow> (string \<times> fp_entry) list \<Rightarrow> (string \<times> fp_entry) list result" where
  "group_fingerprints [] fingerprints = Inr fingerprints"
| "group_fingerprints (item # items) fingerprints =
     (let fingerprint = get_schema_fingerprint (ns_schema item) in
      case map_of fingerprints fingerprint of
        Some existing \<Rightarrow>
          group_fingerprints items
            (AList.update fingerprint (existing\<lparr>fe_names := fe_names existing @ [ns_name item]\<rparr>)
               fingerprints)
      | None \<Rightarrow>
          (case extract_error_code (ns_schema item) of
             Inl e \<Rightarrow> Inl e
           | Inr error_code \<Rightarrow>
               group_fingerprints items
                 (AList.update fingerprint
                    \<lparr>fe_schema = ns_schema item, fe_names = [ns_name item],
                     fe_error_code = error_code\<rparr> fingerprints)))"

text \<open>
  The second loop; \<^verbatim>\<open>names[0]\<close> exists because every entry is created with one name.
\<close>

definition common_of_entry :: "string \<Rightarrow> fp_entry \<Rightarrow> CommonSchema" where
  "common_of_entry fingerprint entry =
     \<lparr>cs_name = (case fe_error_code entry of
                   Some error_code \<Rightarrow> generate_common_error_schema_name error_code
                 | None \<Rightarrow> (case fe_names entry of n # _ \<Rightarrow> n | [] \<Rightarrow> [])),
      cs_schema = fe_schema entry,
      cs_fingerprint = fingerprint,
      cs_count = length (fe_names entry)\<rparr>"

text \<open>
  \<^verbatim>\<open>sorted(common, key=count, reverse=True)\<close> is stable: equal counts keep their order,
  as the insertion sort \<open>sort_key\<close> does on the negated count.
\<close>

definition find_common_schemas :: "NamedSchema list \<Rightarrow> nat \<Rightarrow> CommonSchema list result" where
  "find_common_schemas schemas min_count =
     (case group_fingerprints schemas [] of
        Inl e \<Rightarrow> Inl e
      | Inr fingerprints \<Rightarrow>
          Inr (sort_key (\<lambda>c. - int (cs_count c))
                 (map (\<lambda>(fingerprint, entry). common_of_entry fingerprint entry)
                    (filter (\<lambda>(fingerprint, entry). \<not> length (fe_names entry) < min_count)
                       fingerprints))))"

section \<open>routes.py: the route extractor\<close>

record RouteParameter =
  rp_name :: string
  rp_location :: string
  rp_required :: bool
  rp_schema :: pyval

text \<open>
  The fields of \<^verbatim>\<open>RouteInfo\<close> carry the prefix \<open>ri_\<close>. \<open>ri_request_body\<close> is \<open>PNone\<close> for
  Python's \<^verbatim>\<open>None\<close>; \<open>ri_responses\<close> is a dict in insertion order.
\<close>

record RouteInfo =
  ri_path :: string
  ri_method :: string
  ri_parameters :: "RouteParameter list"
  ri_request_body :: pyval
  ri_responses :: "(string \<times> pyval) list"

record RouteSchemaNames =
  params_schema_name :: "string option"
  query_schema_name :: "string option"
  headers_schema_name :: "string option"
  body_schema_name :: "string option"
  response_schema_name :: "string option"

definition to_upper_method :: "string \<Rightarrow> string" where
  "to_upper_method m =
     (if str_upper m \<in> {''GET'', ''POST'', ''PUT'', ''PATCH'', ''DELETE'', ''HEAD'', ''OPTIONS''}
      then str_upper m else ''GET'')"

text \<open>\<^verbatim>\<open>routes._to_pascal_case\<close>.\<close>

definition routes_to_pascal_case :: "string \<Rightarrow> string" where
  "routes_to_pascal_case v =
     concat (map (\<lambda>part. str_upper (take 1 part) @ str_lower (drop 1 part))
               (split_ws (map (\<lambda>c. if is_alnum_c c then c else CHR '' '') v)))"

text \<open>\<^verbatim>\<open>routes._generate_route_schema_name\<close>; \<^verbatim>\<open>part[1:-1]\<close> drops the two braces.\<close>

definition routes_generate_route_schema_name :: "string \<Rightarrow> string \<Rightarrow> string \<Rightarrow> string" where
  "routes_generate_route_schema_name p m suffix =
     (let path_parts =
            map (\<lambda>part. if startswith part ''{'' \<and> endswith part ''}'' then butlast (drop 1 part)
                         else part)
              (filter (\<lambda>part. part \<noteq> []) (split p ''/''));
          method_prefix = take 1 m @ str_lower (drop 1 m)
      in concat ([method_prefix] @ map routes_to_pascal_case path_parts @ [suffix]))"

text \<open>\<^verbatim>\<open>d.get(k, default)\<close>: the default only when the key is absent.\<close>

definition dget_default :: "(string \<times> pyval) list \<Rightarrow> string \<Rightarrow> pyval \<Rightarrow> pyval" where
  "dget_default d k dflt = (case map_of d k of None \<Rightarrow> dflt | Some v \<Rightarrow> v)"

definition http_methods :: "string list" where
  "http_methods = [''get'', ''post'', ''put'', ''patch'', ''delete'', ''head'', ''options'']"

text \<open>The parameters of one source (\<^verbatim>\<open>path_item["parameters"]\<close> or \<^verbatim>\<open>operation["parameters"]\<close>).\<close>

definition params_of_src :: "pyval \<Rightarrow> RouteParameter list" where
  "params_of_src params_src =
     (case params_src of
        PList ps \<Rightarrow>
          concat (map (\<lambda>param. case param of
                         PDict pd \<Rightarrow>
                           [\<lparr>rp_name = str_of (dget_default pd ''name'' (PStr '''')),
                             rp_location = str_of (dget_default pd ''in'' (PStr ''query'')),
                             rp_required = truthy (dget pd ''required''),
                             rp_schema = dget_default pd ''schema'' (PDict [])\<rparr>]
                       | _ \<Rightarrow> []) ps)
      | _ \<Rightarrow> [])"

definition json_schema_of_content :: "pyval \<Rightarrow> (string \<times> pyval) list option" where
  "json_schema_of_content holder =
     (case holder of
        PDict h \<Rightarrow>
          (case dget h ''content'' of
             PDict content \<Rightarrow>
               (case dget content ''application/json'' of
                  PDict json_content \<Rightarrow> Some json_content
                | _ \<Rightarrow> None)
           | _ \<Rightarrow> None)
      | _ \<Rightarrow> None)"

text \<open>The loop over \<^verbatim>\<open>responses_obj.items()\<close>, filling the \<^verbatim>\<open>responses\<close> dict.\<close>

fun collect_responses :: "(string \<times> pyval) list \<Rightarrow> (string \<times> pyval) list \<Rightarrow> (string \<times> pyval) list" where
  "collect_responses [] acc = acc"
| "collect_responses ((status_code, response) # rest) acc =
     (case json_schema_of_content response of
        Some json_content \<Rightarrow>
          (if dget json_content ''schema'' \<noteq> PNone
           then collect_responses rest (AList.update status_code (dget json_content ''schema'') acc)
           else collect_responses rest acc)
      | None \<Rightarrow> collect_responses rest acc)"

definition route_of_operation ::
  "string \<Rightarrow> (string \<times> pyval) list \<Rightarrow> string \<Rightarrow> (string \<times> pyval) list \<Rightarrow> RouteInfo" where
  "route_of_operation p path_item m operation =
     \<lparr>ri_path = p,
      ri_method = to_upper_method m,
      ri_parameters = params_of_src (dget path_item ''parameters'')
                   @ params_of_src (dget operation ''parameters''),
      ri_request_body = (case json_schema_of_content (dget operation ''requestBody'') of
                        Some json_content \<Rightarrow> dget_default json_content ''schema'' (PDict [])
                      | None \<Rightarrow> PNone),
      ri_responses = (case dget operation ''responses'' of
                     PDict responses_obj \<Rightarrow> collect_responses responses_obj []
                   | _ \<Rightarrow> [])\<rparr>"

text \<open>
  \<^verbatim>\<open>parse_openapi_paths\<close>: for each path item that is a dict, the inner loop runs over the
  seven method names of \<open>http_methods\<close> and reads \<^verbatim>\<open>path_item.get(method)\<close>; other keys of the
  path item are never read.
\<close>

definition routes_of_path_item :: "string \<Rightarrow> pyval \<Rightarrow> RouteInfo list" where
  "routes_of_path_item p path_item_obj =
     (case path_item_obj of
        PDict path_item \<Rightarrow>
          concat (map (\<lambda>m. case dget path_item m of
                         PDict operation \<Rightarrow> [route_of_operation p path_item m operation]
                       | _ \<Rightarrow> [])
                    http_methods)
      | _ \<Rightarrow> [])"

definition parse_openapi_paths :: "(string \<times> pyval) list \<Rightarrow> RouteInfo list" where
  "parse_openapi_paths openapi =
     (case dget openapi ''paths'' of
        PDict paths \<Rightarrow> concat (map (\<lambda>(p, path_item_obj). routes_of_path_item p path_item_obj) paths)
      | _ \<Rightarrow> [])"

definition generate_route_schema_names :: "RouteInfo \<Rightarrow> RouteSchemaNames" where
  "generate_route_schema_names route =
     \<lparr>params_schema_name =
        (if filter (\<lambda>q. rp_location q = ''path'') (ri_parameters route) \<noteq> []
         then Some (routes_generate_route_schema_name (ri_path route) (ri_method route) ''Params'')
         else None),
      query_schema_name =
        (if filter (\<lambda>q. rp_location q = ''query'') (ri_parameters route) \<noteq> []
         then Some (routes_generate_route_schema_name (ri_path route) (ri_method route) ''Query'')
         else None),
      headers_schema_name =
        (if filter (\<lambda>q. rp_location q = ''header'') (ri_parameters route) \<noteq> []
         then Some (routes_generate_route_schema_name (ri_path route) (ri_method route) ''Headers'')
         else None),
      body_schema_name =
        (if ri_request_body route \<noteq> PNone
         then Some (routes_generate_route_schema_name (ri_path route) (ri_method route) ''Body'')
         else None),
      response_schema_name =
        (if filter (\<lambda>status. startswith status ''2'') (map fst (ri_responses route)) \<noteq> []
         then Some (routes_generate_route_schema_name (ri_path route) (ri_method route) ''Response'')
         else None)\<rparr>"

section \<open>The registration conditions of the specification\<close>

text \<open>
  The conditions named by the specification's error-handling section, stated on the
  registry tables: a key is in conflict when it is already mapped to a different alias.
  \<open>requested_formats\<close> are the string formats a \<^verbatim>\<open>string\<close> registration asks for: the single
  \<^verbatim>\<open>format\<close>, else the strings of the \<^verbatim>\<open>formats\<close> list, else nothing to register.
\<close>

definition alias_conflict :: "(string \<times> string) list \<Rightarrow> string \<Rightarrow> string \<Rightarrow> bool" where
  "alias_conflict table key name =
     (case map_of table key of Some existing \<Rightarrow> existing \<noteq> name | None \<Rightarrow> False)"

definition requested_formats :: "registration \<Rightarrow> string list option" where
  "requested_formats reg =
     (case reg_format reg of
        PStr f \<Rightarrow> Some [f]
      | _ \<Rightarrow>
        (case reg_formats reg of
           PList items \<Rightarrow> Some (concat (map (\<lambda>i. case i of PStr f \<Rightarrow> [f] | _ \<Rightarrow> []) items))
         | _ \<Rightarrow> None))"

definition registration_rejected :: "PydanticSchemaRegistry \<Rightarrow> registration \<Rightarrow> bool" where
  "registration_rejected r reg =
     (if reg_type reg = ''string'' then
        (case requested_formats reg of
           None \<Rightarrow> True
         | Some fs \<Rightarrow>
             (\<exists>f \<in> set fs. f \<notin> set SUPPORTED_STRING_FORMATS
                \<or> alias_conflict (string_format_to_name r) f (schema_exported_variable_name reg)))
      else if reg_type reg \<in> {''number'', ''integer'', ''boolean''} then
        alias_conflict (primitive_type_to_name r) (reg_type reg) (schema_exported_variable_name reg)
      else True)"

definition no_empty_alias :: "PydanticSchemaRegistry \<Rightarrow> bool" where
  "no_empty_alias r =
     ((\<forall>kv \<in> set (string_format_to_name r). snd kv \<noteq> [])
      \<and> (\<forall>kv \<in> set (primitive_type_to_name r). snd kv \<noteq> []))"

definition rejected_as_claimed :: "PydanticSchemaRegistry \<Rightarrow> registration \<Rightarrow> bool" where
  "rejected_as_claimed r reg =
     ((reg_type reg = ''string'' \<and>
        (case requested_formats reg of
           None \<Rightarrow> False
         | Some fs \<Rightarrow> (\<exists>f \<in> set fs.
             alias_conflict (string_format_to_name r) f (schema_exported_variable_name reg))))
      \<or> (reg_type reg \<in> {''number'', ''integer'', ''boolean''} \<and>
           alias_conflict (primitive_type_to_name r) (reg_type reg) (schema_exported_variable_name reg))
      \<or> reg_type reg \<notin> {''string'', ''number'', ''integer'', ''boolean''})"

section \<open>Lemmas about the custom format registry\<close>

text \<open>The conflict test of the code: a stored empty alias never conflicts.\<close>

definition code_conflict :: "(string \<times> string) list \<Rightarrow> string \<Rightarrow> string \<Rightarrow> bool" where
  "code_conflict table key name =
     (case map_of table key of Some existing \<Rightarrow> existing \<noteq> [] \<and> existing \<noteq> name | None \<Rightarrow> False)"

lemma register_string_format_result:
  "register_string_format r f reg =
     (if f \<notin> set SUPPORTED_STRING_FORMATS \<or> code_conflict (string_format_to_name r) f (schema_exported_variable_name reg)
      then (Some ValueError, r)
      else (None, r\<lparr>string_format_to_name :=
                 AList.update f (schema_exported_variable_name reg) (string_format_to_name r)\<rparr>))"
  by (auto simp: register_string_format_def code_conflict_def split: option.splits)

lemma code_conflict_update:
  "\<not> code_conflict t f name \<Longrightarrow> code_conflict (AList.update f name t) g name = code_conflict t g name"
  by (auto simp: code_conflict_def update_conv' split: option.splits)

lemma register_format_items_none:
  "(fst (register_format_items r items reg) = None) =
     (\<forall>f. PStr f \<in> set items \<longrightarrow> f \<in> set SUPPORTED_STRING_FORMATS
         \<and> \<not> code_conflict (string_format_to_name r) f (schema_exported_variable_name reg))"
proof (induction r items reg rule: register_format_items.induct)
  case (1 r reg)
  then show ?case by simp
next
  case (2 r f items reg)
  show ?case
  proof (cases "f \<notin> set SUPPORTED_STRING_FORMATS \<or> code_conflict (string_format_to_name r) f (schema_exported_variable_name reg)")
    case True
    then show ?thesis by (auto simp: register_string_format_result)
  next
    case False
    then have ok: "register_string_format r f reg = (None, r\<lparr>string_format_to_name :=
                 AList.update f (schema_exported_variable_name reg) (string_format_to_name r)\<rparr>)"
      by (simp add: register_string_format_result)
    from False have nc: "\<not> code_conflict (string_format_to_name r) f (schema_exported_variable_name reg)" by simp
    show ?thesis
      using False "2.IH"[OF ok[symmetric] refl] ok nc
      by (auto simp: code_conflict_update)
  qed
qed (simp_all)

lemma code_conflict_alias:
  "\<forall>kv \<in> set t. snd kv \<noteq> [] \<Longrightarrow> code_conflict t k name = alias_conflict t k name"
  by (auto simp: code_conflict_def alias_conflict_def split: option.splits dest!: map_of_SomeD)

lemma PStr_items: "(\<forall>f \<in> set (concat (map (\<lambda>i. case i of PStr f \<Rightarrow> [f] | _ \<Rightarrow> []) items)). P f)
   = (\<forall>f. PStr f \<in> set items \<longrightarrow> P f)"
  by (induction items) (auto split: pyval.splits)

definition code_accepts :: "PydanticSchemaRegistry \<Rightarrow> registration \<Rightarrow> bool" where
  "code_accepts r reg =
     (if reg_type reg = ''string'' then
        (case requested_formats reg of
           None \<Rightarrow> False
         | Some fs \<Rightarrow>
             (\<forall>f \<in> set fs. f \<in> set SUPPORTED_STRING_FORMATS
                \<and> \<not> code_conflict (string_format_to_name r) f (schema_exported_variable_name reg)))
      else reg_type reg \<in> {''number'', ''integer'', ''boolean''} \<and>
        \<not> code_conflict (primitive_type_to_name r) (reg_type reg) (schema_exported_variable_name reg))"

lemma register_none_format:
  "reg_type reg = ''string'' \<Longrightarrow> reg_format reg = PStr f \<Longrightarrow>
   (fst (register r sid reg) = None) = code_accepts r reg"
  by (auto simp: register_def code_accepts_def requested_formats_def register_string_format_result)

lemma register_none_formats:
  "reg_type reg = ''string'' \<Longrightarrow> \<not> is_str (reg_format reg) \<Longrightarrow> reg_formats reg = PList items \<Longrightarrow>
   (fst (register r sid reg) = None) = code_accepts r reg"
proof -
  assume a: "reg_type reg = ''string''" "\<not> is_str (reg_format reg)" "reg_formats reg = PList items"
  have "(fst (register r sid reg) = None) = (fst (register_format_items r items reg) = None)"
    using a by (cases "reg_format reg") (auto simp: register_def split: prod.splits option.splits)
  moreover have "requested_formats reg = Some (concat (map (\<lambda>i. case i of PStr f \<Rightarrow> [f] | _ \<Rightarrow> []) items))"
    using a by (cases "reg_format reg") (auto simp: requested_formats_def)
  ultimately show ?thesis
    using a unfolding code_accepts_def by (simp add: register_format_items_none) blast
qed

lemma register_none_neither:
  "reg_type reg = ''string'' \<Longrightarrow> \<not> is_str (reg_format reg) \<Longrightarrow> \<not> is_list (reg_formats reg) \<Longrightarrow>
   (fst (register r sid reg) = None) = code_accepts r reg"
  by (cases "reg_format reg"; cases "reg_formats reg")
     (auto simp: register_def code_accepts_def requested_formats_def)

lemma register_none_other:
  "reg_type reg \<noteq> ''string'' \<Longrightarrow> (fst (register r sid reg) = None) = code_accepts r reg"
  by (auto simp: register_def code_accepts_def code_conflict_def split: option.splits)

lemma register_none_iff: "(fst (register r sid reg) = None) = code_accepts r reg"
proof (cases "reg_type reg = ''string''")
  case True
  show ?thesis
  proof (cases "reg_format reg")
    case (PStr f)
    then show ?thesis using True register_none_format by blast
  next
    case PNone
    then have n: "\<not> is_str (reg_format reg)" by simp
    show ?thesis using True n register_none_formats register_none_neither
      by (cases "reg_formats reg") (auto)
  next
    case (PBool b)
    then have n: "\<not> is_str (reg_format reg)" by simp
    show ?thesis using True n register_none_formats register_none_neither
      by (cases "reg_formats reg") (auto)
  next
    case (PInt i)
    then have n: "\<not> is_str (reg_format reg)" by simp
    show ?thesis using True n register_none_formats register_none_neither
      by (cases "reg_formats reg") (auto)
  next
    case (PList l)
    then have n: "\<not> is_str (reg_format reg)" by simp
    show ?thesis using True n register_none_formats register_none_neither
      by (cases "reg_formats reg") (auto)
  next
    case (PDict d)
    then have n: "\<not> is_str (reg_format reg)" by simp
    show ?thesis using True n register_none_formats register_none_neither
      by (cases "reg_formats reg") (auto)
  qed
next
  case False
  then show ?thesis by (rule register_none_other)
qed

lemma code_accepts_rejected:
  "no_empty_alias r \<Longrightarrow> code_accepts r reg = (\<not> registration_rejected r reg)"
  by (auto simp: code_accepts_def registration_rejected_def no_empty_alias_def code_conflict_alias
           split: option.splits)

text \<open>Registering the same registration again changes nothing.\<close>


lemma register_format_items_post:
  "register_format_items r items reg = (None, r') \<Longrightarrow>
     (\<forall>f. PStr f \<in> set items \<longrightarrow> f \<in> set SUPPORTED_STRING_FORMATS
          \<and> map_of (string_format_to_name r') f = Some (schema_exported_variable_name reg))
     \<and> (\<forall>g. map_of (string_format_to_name r) g = Some (schema_exported_variable_name reg)
          \<longrightarrow> map_of (string_format_to_name r') g = Some (schema_exported_variable_name reg))"
proof (induction r items reg arbitrary: r' rule: register_format_items.induct)
  case (1 r reg)
  then show ?case by simp
next
  case (2 r f items reg)
  from "2.prems" obtain r1 where r1: "register_string_format r f reg = (None, r1)"
    and rest: "register_format_items r1 items reg = (None, r')"
    by (auto split: prod.splits option.splits)
  from r1 have sup: "f \<in> set SUPPORTED_STRING_FORMATS"
    and r1eq: "r1 = r\<lparr>string_format_to_name :=
                 AList.update f (schema_exported_variable_name reg) (string_format_to_name r)\<rparr>"
    by (auto simp: register_string_format_result split: if_splits)
  from "2.IH"[OF r1[symmetric] refl rest] r1eq sup show ?case
    by (auto simp: update_conv')
qed (auto)

lemma register_format_items_fixed:
  "(\<forall>f. PStr f \<in> set items \<longrightarrow> f \<in> set SUPPORTED_STRING_FORMATS
          \<and> map_of (string_format_to_name r) f = Some (schema_exported_variable_name reg))
   \<Longrightarrow> register_format_items r items reg = (None, r)"
proof (induction r items reg rule: register_format_items.induct)
  case (2 r f items reg)
  then have "register_string_format r f reg = (None, r)"
    by (simp add: register_string_format_result code_conflict_def update_triv)
  with 2 show ?case by simp
qed (auto)

lemma set_schema_id_tables [simp]:
  "string_format_to_name (set_schema_id sid reg r) = string_format_to_name r"
  "primitive_type_to_name (set_schema_id sid reg r) = primitive_type_to_name r"
  by (simp_all add: set_schema_id_def)

lemma register_format_items_schema_ids:
  "register_format_items r items reg = (e, r') \<Longrightarrow> 
   register_format_items (set_schema_id sid reg r) items reg = (e, set_schema_id sid reg r')"
proof (induction r items reg arbitrary: r' rule: register_format_items.induct)
  case (2 r f items reg)
  show ?case
  proof (cases "f \<notin> set SUPPORTED_STRING_FORMATS \<or> code_conflict (string_format_to_name r) f (schema_exported_variable_name reg)")
    case True
    with "2.prems" show ?thesis by (auto simp: register_string_format_result)
  next
    case False
    then have ok: "register_string_format r f reg = (None, r\<lparr>string_format_to_name :=
                 AList.update f (schema_exported_variable_name reg) (string_format_to_name r)\<rparr>)"
      by (simp add: register_string_format_result)
    have ok2: "register_string_format (set_schema_id sid reg r) f reg = (None, set_schema_id sid reg (r\<lparr>string_format_to_name :=
                 AList.update f (schema_exported_variable_name reg) (string_format_to_name r)\<rparr>))"
      using False by (simp add: register_string_format_result) (simp add: set_schema_id_def)
    from "2.prems" ok have rest: "register_format_items (r\<lparr>string_format_to_name :=
                 AList.update f (schema_exported_variable_name reg) (string_format_to_name r)\<rparr>) items reg = (e, r')"
      by simp
    from "2.IH"[OF ok[symmetric] refl rest] ok2 show ?thesis by simp
  qed
qed (auto)

lemma set_schema_id_idem [simp]:
  "set_schema_id sid reg (set_schema_id sid reg r) = set_schema_id sid reg r"
  by (simp add: set_schema_id_def)

lemma register_string_format_again:
  assumes "register_string_format r f reg = (None, r1)"
  shows "register_string_format (set_schema_id sid reg r1) f reg = (None, set_schema_id sid reg r1)"
proof -
  from assms have sup: "f \<in> set SUPPORTED_STRING_FORMATS"
    and r1: "r1 = r\<lparr>string_format_to_name :=
                 AList.update f (schema_exported_variable_name reg) (string_format_to_name r)\<rparr>"
    by (auto simp: register_string_format_result split: if_splits)
  have m: "map_of (string_format_to_name (set_schema_id sid reg r1)) f = Some (schema_exported_variable_name reg)"
    by (simp add: r1 update_conv')
  then have nc: "\<not> code_conflict (string_format_to_name (set_schema_id sid reg r1)) f (schema_exported_variable_name reg)"
    by (simp add: code_conflict_def)
  have "(set_schema_id sid reg r1)\<lparr>string_format_to_name :=
          AList.update f (schema_exported_variable_name reg) (string_format_to_name (set_schema_id sid reg r1))\<rparr>
        = set_schema_id sid reg r1"
    using update_triv[OF m] by simp
  with sup nc show ?thesis by (simp add: register_string_format_result)
qed

lemma register_idem_format:
  assumes "register r sid reg = (None, r')" "reg_type reg = ''string''" "reg_format reg = PStr f"
  shows "register r' sid reg = (None, r')"
proof -
  from assms obtain r1 where r1: "register_string_format r f reg = (None, r1)"
    and r': "r' = set_schema_id sid reg r1"
    by (auto simp: register_def split: prod.splits option.splits)
  show ?thesis using register_string_format_again[OF r1, of sid] assms(2,3)
    by (simp add: register_def r')
qed

lemma register_formats_unfold:
  assumes "reg_type reg = ''string''" "\<not> is_str (reg_format reg)" "reg_formats reg = PList items"
  shows "register r sid reg =
    (case register_format_items r items reg of
                (Some e, r') \<Rightarrow> (Some e, r')
              | (None, r') \<Rightarrow> (None, set_schema_id sid reg r'))"
  using assms by (cases "reg_format reg") (simp_all add: register_def)

lemma register_idem_formats:
  assumes "register r sid reg = (None, r')" "reg_type reg = ''string''" "\<not> is_str (reg_format reg)"
     "reg_formats reg = PList items"
  shows "register r' sid reg = (None, r')"
proof -
  from assms(1) obtain r1 where r1: "register_format_items r items reg = (None, r1)" and r': "r' = set_schema_id sid reg r1"
    unfolding register_formats_unfold[OF assms(2,3,4)]
    by (auto split: prod.splits option.splits)
  from register_format_items_post[OF r1]
  have "register_format_items r1 items reg = (None, r1)"
    by (intro register_format_items_fixed) simp
  from register_format_items_schema_ids[OF this, of sid]
  have "register_format_items r' items reg = (None, r')" by (simp add: r')
  moreover have "set_schema_id sid reg r' = r'" by (simp add: r')
  ultimately show ?thesis
    unfolding register_formats_unfold[OF assms(2,3,4)] by simp
qed

lemma register_primitive_unfold:
  assumes "reg_type reg \<noteq> ''string''"
  shows "register r sid reg =
    (if reg_type reg \<in> {''number'', ''integer'', ''boolean''} then
       if code_conflict (primitive_type_to_name r) (reg_type reg) (schema_exported_variable_name reg)
       then (Some ValueError, r)
       else (None, set_schema_id sid reg (r\<lparr>primitive_type_to_name :=
                          AList.update (reg_type reg) (schema_exported_variable_name reg)
                            (primitive_type_to_name r)\<rparr>))
     else (Some ValueError, r))"
  using assms by (simp add: register_def code_conflict_def split: option.splits)

lemma register_idem_primitive:
  assumes "register r sid reg = (None, r')" "reg_type reg \<noteq> ''string''"
  shows "register r' sid reg = (None, r')"
proof -
  from assms have prim: "reg_type reg \<in> {''number'', ''integer'', ''boolean''}"
    and r': "r' = set_schema_id sid reg (r\<lparr>primitive_type_to_name :=
                          AList.update (reg_type reg) (schema_exported_variable_name reg)
                            (primitive_type_to_name r)\<rparr>)"
    unfolding register_primitive_unfold[OF assms(2)] by (simp_all split: if_splits)
  have m: "map_of (primitive_type_to_name r') (reg_type reg) = Some (schema_exported_variable_name reg)"
    by (simp add: r' update_conv')
  then have nc: "\<not> code_conflict (primitive_type_to_name r') (reg_type reg) (schema_exported_variable_name reg)"
    by (simp add: code_conflict_def)
  have "set_schema_id sid reg (r'\<lparr>primitive_type_to_name :=
                          AList.update (reg_type reg) (schema_exported_variable_name reg)
                            (primitive_type_to_name r')\<rparr>) = r'"
    unfolding update_triv[OF m] by (simp add: r' set_schema_id_def)
  with prim nc show ?thesis
    unfolding register_primitive_unfold[OF assms(2)] by simp
qed

lemma register_neither:
  assumes "reg_type reg = ''string''" "\<not> is_str (reg_format reg)" "\<not> is_list (reg_formats reg)"
  shows "register r sid reg = (Some ValueError, r)"
  using assms by (cases "reg_format reg"; cases "reg_formats reg") (simp_all add: register_def)

lemma register_idempotent:
  assumes "register r sid reg = (None, r')"
  shows "register r' sid reg = (None, r')"
proof (cases "reg_type reg = ''string''")
  case True
  show ?thesis
  proof (cases "is_str (reg_format reg)")
    case True
    then obtain f where f: "reg_format reg = PStr f" by (cases "reg_format reg") auto
    show ?thesis by (rule register_idem_format[OF assms \<open>reg_type reg = ''string''\<close> f])
  next
    case False
    note nf = this
    show ?thesis
    proof (cases "is_list (reg_formats reg)")
      case True
      then obtain items where "reg_formats reg = PList items" by (cases "reg_formats reg") auto
      then show ?thesis using register_idem_formats[OF assms \<open>reg_type reg = ''string''\<close> nf] by simp
    next
      case False
      with assms nf \<open>reg_type reg = ''string''\<close> show ?thesis by (simp add: register_neither)
    qed
  qed
next
  case False
  then show ?thesis by (rule register_idem_primitive[OF assms])
qed

section \<open>Lemmas about the dedup registry\<close>

lemma register_schema_fresh:
  "map_of (fingerprint_to_name registry) (get_schema_fingerprint schema) = None \<Longrightarrow>
   register_schema registry name schema =
     (\<lparr>is_new = True, canonical_name = name\<rparr>,
      registry\<lparr>fingerprint_to_name :=
        AList.update (get_schema_fingerprint schema) name (fingerprint_to_name registry)\<rparr>)"
  by (simp add: register_schema_def)

lemma register_schema_existing:
  "map_of (fingerprint_to_name registry) (get_schema_fingerprint schema) = Some existing \<Longrightarrow>
   existing \<noteq> [] \<Longrightarrow>
   register_schema registry name schema = (\<lparr>is_new = False, canonical_name = existing\<rparr>, registry)"
  by (simp add: register_schema_def)

lemma pre_register_schema_overwrites:
  "map_of (fingerprint_to_name (pre_register_schema registry name fingerprint)) fingerprint = Some name"
  by (simp add: pre_register_schema_def update_conv')

lemma pre_register_schema_other:
  "fp \<noteq> fingerprint \<Longrightarrow>
   map_of (fingerprint_to_name (pre_register_schema registry name fingerprint)) fp
     = map_of (fingerprint_to_name registry) fp"
  by (simp add: pre_register_schema_def update_conv')

section \<open>dependencies.py: the schema graph\<close>

definition traversed_keys :: "string list" where
  "traversed_keys = [''items'', ''oneOf'', ''allOf'', ''anyOf'', ''not'', ''if'', ''then'', ''else'',
     ''prefixItems'', ''contains'', ''propertyNames'', ''dependentSchemas'']"

lemma size_map_of_value:
  "map_of d k = Some (PDict e) \<Longrightarrow> (k', v) \<in> set e \<Longrightarrow> size v < size (PDict d)"
  using size_map_of[of d k "PDict e"] size_dict_value[of k' v e] by simp

lemma size_dget_value:
  "dget d k = PDict e \<Longrightarrow> (k', v) \<in> set e \<Longrightarrow> size v < size (PDict d)"
  using size_dget[of d k "PDict e"] size_dict_value[of k' v e] by simp

lemma size_dget_dget_value:
  "dget d k = PDict e \<Longrightarrow> dget e k2 = PDict m \<Longrightarrow> (k', v) \<in> set m \<Longrightarrow> size v < size (PDict d)"
  using size_dget[of d k "PDict e"] size_dget_value[of e k2 m k' v] by simp

lemma size_has_key: "has_key d k \<Longrightarrow> size (dget d k) < size (PDict d)"
  using size_map_of[of d k] by (auto simp: has_key_def dget_def)

lemma size_dget_dict: "dget d k = PDict e \<Longrightarrow> size (PDict e) < size (PDict d)"
  by (rule size_dget) simp_all

text \<open>
  The inner \<^verbatim>\<open>traverse\<close> of \<^verbatim>\<open>extract_schema_dependencies\<close>, returning the references it adds in
  visiting order. The source keeps a \<^verbatim>\<open>visited\<close> set of object identities so that a shared
  subtree is walked once; a second walk would add the same names to the \<^verbatim>\<open>dependencies\<close> set
  again, so the set is the same and the model, whose values are trees, has no such guard.
  A \<^verbatim>\<open>$ref\<close> node is not descended into.
\<close>

function traverse :: "pyval \<Rightarrow> string list" where
  "traverse (PDict obj) =
     (case dget obj ''$ref'' of
        PStr ref \<Rightarrow>
          (case split ref components_prefix of
             [a, b] \<Rightarrow> if b \<noteq> [] then [unquote b] else []
           | _ \<Rightarrow> [])
      | _ \<Rightarrow>
          (case dget obj ''properties'' of
             PDict props \<Rightarrow> concat (map (\<lambda>(key, v). traverse v) props)
           | _ \<Rightarrow> [])
          @ concat (map (\<lambda>key. if has_key obj key then traverse (dget obj key) else [])
                      traversed_keys)
          @ (case dget obj ''additionalProperties'' of
               PDict additional \<Rightarrow> traverse (PDict additional)
             | _ \<Rightarrow> [])
          @ (case dget obj ''discriminator'' of
               PDict discriminator \<Rightarrow>
                 (case dget discriminator ''mapping'' of
                    PDict mapping \<Rightarrow> concat (map (\<lambda>(key, v). traverse v) mapping)
                  | _ \<Rightarrow> [])
             | _ \<Rightarrow> []))"
| "traverse (PList xs) = concat (map traverse xs)"
| "traverse PNone = []"
| "traverse (PBool b) = []"
| "traverse (PInt i) = []"
| "traverse (PStr s) = []"
  by pat_completeness auto
termination
  by (relation "measure size")
     (auto intro: size_dget_value[simplified] size_dget_dget_value[simplified]
        size_has_key[simplified] size_dget_dict[simplified] size_list_member[simplified])

text \<open>
  \<^verbatim>\<open>list(dependencies)\<close> lists a Python set of strings, whose iteration order the language
  does not fix (string hashes differ between processes). \<open>set_order\<close> stands for that
  order: it is given the elements without duplicates and returns them in the order of
  iteration. \<open>set_order_ok\<close> says that it only reorders.
\<close>

definition set_order_ok :: "(string list \<Rightarrow> string list) \<Rightarrow> bool" where
  "set_order_ok set_order =
     (\<forall>xs. distinct xs \<longrightarrow> distinct (set_order xs) \<and> set (set_order xs) = set xs)"

definition extract_schema_dependencies :: "(string list \<Rightarrow> string list) \<Rightarrow> pyval \<Rightarrow> string list" where
  "extract_schema_dependencies set_order schema = set_order (remdups (traverse schema))"


text \<open>
  \<^verbatim>\<open>topological_sort_schemas\<close>. The dicts \<^verbatim>\<open>dependencies\<close>, \<^verbatim>\<open>dependents\<close> and \<^verbatim>\<open>in_degree\<close> are
  created with one entry per schema name, and every later subscript uses a schema name
  (\<^verbatim>\<open>valid_deps\<close> keeps only names of \<^verbatim>\<open>schemas\<close>), so no subscript can raise \<^verbatim>\<open>KeyError\<close>;
  \<open>list_of\<close> and \<open>deg\<close> read an entry.
\<close>

definition list_of :: "(string \<times> string list) list \<Rightarrow> string \<Rightarrow> string list" where
  "list_of d k = (case map_of d k of Some v \<Rightarrow> v | None \<Rightarrow> [])"

definition deg :: "(string \<times> int) list \<Rightarrow> string \<Rightarrow> int" where
  "deg d k = (case map_of d k of Some v \<Rightarrow> v | None \<Rightarrow> 0)"

definition valid_deps_of ::
  "(string list \<Rightarrow> string list) \<Rightarrow> (string \<times> pyval) list \<Rightarrow> pyval \<Rightarrow> string list" where
  "valid_deps_of set_order schemas schema =
     filter (\<lambda>dep. has_key schemas dep) (extract_schema_dependencies set_order schema)"

text \<open>\<^verbatim>\<open>for dep in valid_deps: dependents[dep].append(name)\<close>.\<close>

fun add_dependents ::
  "string \<Rightarrow> string list \<Rightarrow> (string \<times> string list) list \<Rightarrow> (string \<times> string list) list" where
  "add_dependents name [] dependents = dependents"
| "add_dependents name (dep # deps) dependents =
     add_dependents name deps (AList.update dep (list_of dependents dep @ [name]) dependents)"

text \<open>The loop over \<^verbatim>\<open>schemas.items()\<close>.\<close>

fun build_graph ::
  "(string list \<Rightarrow> string list) \<Rightarrow> (string \<times> pyval) list \<Rightarrow> (string \<times> pyval) list \<Rightarrow>
   (string \<times> string list) list \<Rightarrow> (string \<times> string list) list \<Rightarrow>
   (string \<times> string list) list \<times> (string \<times> string list) list" where
  "build_graph set_order schemas [] dependencies dependents = (dependencies, dependents)"
| "build_graph set_order schemas ((name, schema) # rest) dependencies dependents =
     build_graph set_order schemas rest
       (AList.update name (valid_deps_of set_order schemas schema) dependencies)
       (add_dependents name (valid_deps_of set_order schemas schema) dependents)"

text \<open>\<^verbatim>\<open>for name, deps in dependencies.items(): in_degree[name] = len(deps)\<close>.\<close>

fun set_in_degrees :: "(string \<times> string list) list \<Rightarrow> (string \<times> int) list \<Rightarrow> (string \<times> int) list" where
  "set_in_degrees [] in_degree = in_degree"
| "set_in_degrees ((name, deps) # rest) in_degree =
     set_in_degrees rest (AList.update name (int (length deps)) in_degree)"

text \<open>The \<^verbatim>\<open>for dependent in dependents[current]\<close> loop inside the queue loop.\<close>

fun release ::
  "string list \<Rightarrow> (string \<times> int) list \<Rightarrow> string list \<Rightarrow> (string \<times> int) list \<times> string list" where
  "release [] in_degree queue = (in_degree, queue)"
| "release (dependent # rest) in_degree queue =
     (if deg (AList.update dependent (deg in_degree dependent - 1) in_degree) dependent = 0
      then release rest (AList.update dependent (deg in_degree dependent - 1) in_degree)
             (queue @ [dependent])
      else release rest (AList.update dependent (deg in_degree dependent - 1) in_degree) queue)"

text \<open>
  The queue loop runs while the queue is not empty. It terminates because every
  enqueueing takes a positive in-degree to zero: twice the sum of the positive in-degrees
  plus the queue length decreases with every pop.
\<close>

definition potential :: "(string \<times> int) list \<Rightarrow> nat" where
  "potential in_degree = sum_list (map (\<lambda>kv. nat (snd kv)) in_degree)"

lemma potential_update:
  "potential (AList.update k v al) + nat (deg al k) = potential al + nat v"
  by (induction al) (auto simp: potential_def deg_def)

lemma deg_update_same: "deg (AList.update k v al) k = v"
  by (simp add: deg_def update_conv')

lemma release_potential:
  "2 * potential (fst (release ds in_degree queue)) + length (snd (release ds in_degree queue))
     \<le> 2 * potential in_degree + length queue"
proof (induction ds arbitrary: in_degree queue)
  case Nil
  then show ?case by simp
next
  case (Cons d ds)
  let ?al = "AList.update d (deg in_degree d - 1) in_degree"
  have pu: "potential ?al + nat (deg in_degree d) = potential in_degree + nat (deg in_degree d - 1)"
    by (rule potential_update)
  show ?case
  proof (cases "deg in_degree d - 1 = 0")
    case True
    then have "deg in_degree d = 1" by simp
    with pu have "potential ?al + 1 = potential in_degree" by simp
    with Cons[of ?al "queue @ [d]"] True show ?thesis
      by (simp add: deg_update_same)
  next
    case False
    from pu have "potential ?al \<le> potential in_degree" by linarith
    with Cons[of ?al queue] False show ?thesis
      by (simp add: deg_update_same)
  qed
qed

function kahn_loop ::
  "(string \<times> string list) list \<Rightarrow> (string \<times> int) list \<Rightarrow> string list \<Rightarrow> string list \<Rightarrow> string list" where
  "kahn_loop dependents in_degree [] sorted_names = sorted_names"
| "kahn_loop dependents in_degree (current # queue) sorted_names =
     kahn_loop dependents
       (fst (release (list_of dependents current) in_degree queue))
       (snd (release (list_of dependents current) in_degree queue))
       (sorted_names @ [current])"
  by pat_completeness auto
termination
proof (relation "measure (\<lambda>(dependents, in_degree, queue, sorted_names).
                   2 * potential in_degree + length queue)")
  show "wf (measure (\<lambda>(dependents, in_degree, queue, sorted_names).
                   2 * potential in_degree + length queue))" by simp
next
  fix dependents :: "(string \<times> string list) list" and in_degree current queue
    and sorted_names :: "string list"
  show "((dependents, fst (release (list_of dependents current) in_degree queue),
          snd (release (list_of dependents current) in_degree queue), sorted_names @ [current]),
         (dependents, in_degree, current # queue, sorted_names))
        \<in> measure (\<lambda>(dependents, in_degree, queue, sorted_names).
                   2 * potential in_degree + length queue)"
    using release_potential[of "list_of dependents current" in_degree queue] by simp
qed

text \<open>The fallback loop: names not yet emitted are appended in declaration order.\<close>

fun append_missing :: "string list \<Rightarrow> string list \<Rightarrow> string list" where
  "append_missing [] sorted_names = sorted_names"
| "append_missing (name # rest) sorted_names =
     (if name \<notin> set sorted_names then append_missing rest (sorted_names @ [name])
      else append_missing rest sorted_names)"

text \<open>The state of \<^verbatim>\<open>sorted_names\<close> when the queue loop ends.\<close>

definition kahn_emitted :: "(string list \<Rightarrow> string list) \<Rightarrow> (string \<times> pyval) list \<Rightarrow> string list" where
  "kahn_emitted set_order schemas =
     (let schema_names = map fst schemas;
          graph = build_graph set_order schemas schemas
                    (map (\<lambda>name. (name, [])) schema_names) (map (\<lambda>name. (name, [])) schema_names);
          in_degree = set_in_degrees (fst graph) (map (\<lambda>name. (name, 0)) schema_names);
          queue = map fst (filter (\<lambda>(name, degree). degree = 0) in_degree)
      in kahn_loop (snd graph) in_degree queue [])"

definition topological_sort_schemas ::
  "(string list \<Rightarrow> string list) \<Rightarrow> (string \<times> pyval) list \<Rightarrow> string list" where
  "topological_sort_schemas set_order schemas =
     (let schema_names = map fst schemas;
          sorted_names = kahn_emitted set_order schemas
      in if length sorted_names \<noteq> length schema_names
         then append_missing schema_names sorted_names
         else sorted_names)"

section \<open>Lemmas about the schema graph\<close>

text \<open>
  The graph that \<^verbatim>\<open>topological_sort_schemas\<close> builds, stated directly: \<open>N\<close> are the schema
  names in declaration order and \<open>D n\<close> the valid dependencies of \<open>n\<close>.
\<close>

definition deps_fun ::
  "(string list \<Rightarrow> string list) \<Rightarrow> (string \<times> pyval) list \<Rightarrow> string \<Rightarrow> string list" where
  "deps_fun set_order schemas n =
     (case map_of schemas n of
        Some schema \<Rightarrow> valid_deps_of set_order schemas schema
      | None \<Rightarrow> [])"

definition graph_ok :: "string list \<Rightarrow> (string \<Rightarrow> string list) \<Rightarrow> bool" where
  "graph_ok N D = (distinct N \<and> (\<forall>n. distinct (D n) \<and> set (D n) \<subseteq> set N))"

definition dependents_of :: "string list \<Rightarrow> (string \<Rightarrow> string list) \<Rightarrow> (string \<times> string list) list" where
  "dependents_of N D = map (\<lambda>d. (d, filter (\<lambda>n. d \<in> set (D n)) N)) N"

lemma update_map_fun:
  "distinct N \<Longrightarrow> k \<in> set N \<Longrightarrow>
   AList.update k v (map (\<lambda>d. (d, f d)) N) = map (\<lambda>d. (d, if d = k then v else f d)) N"
  by (induction N) auto

lemma map_of_map_fun: "k \<in> set N \<Longrightarrow> map_of (map (\<lambda>d. (d, f d)) N) k = Some (f k)"
  by (induction N) auto

lemma list_of_map_fun: "k \<in> set N \<Longrightarrow> list_of (map (\<lambda>d. (d, f d)) N) k = f k"
  by (simp add: list_of_def map_of_map_fun)

lemma deg_map_fun: "k \<in> set N \<Longrightarrow> deg (map (\<lambda>d. (d, f d)) N) k = f k"
  by (simp add: deg_def map_of_map_fun)

lemma add_dependents_spec:
  "distinct N \<Longrightarrow> distinct ds \<Longrightarrow> set ds \<subseteq> set N \<Longrightarrow>
   add_dependents name ds (map (\<lambda>d. (d, f d)) N)
     = map (\<lambda>d. (d, f d @ (if d \<in> set ds then [name] else []))) N"
proof (induction ds arbitrary: f)
  case Nil
  then show ?case by simp
next
  case (Cons a ds)
  have "add_dependents name (a # ds) (map (\<lambda>d. (d, f d)) N)
      = add_dependents name ds (map (\<lambda>d. (d, if d = a then f a @ [name] else f d)) N)"
    using Cons.prems by (simp add: list_of_map_fun update_map_fun)
  also have "\<dots> = map (\<lambda>d. (d, (if d = a then f a @ [name] else f d) @ (if d \<in> set ds then [name] else []))) N"
    using Cons.prems by (intro Cons.IH) auto
  also have "\<dots> = map (\<lambda>d. (d, f d @ (if d \<in> set (a # ds) then [name] else []))) N"
    using Cons.prems by auto
  finally show ?case .
qed

lemma valid_deps_of_ok:
  assumes "set_order_ok so"
  shows "distinct (valid_deps_of so schemas schema)"
    and "set (valid_deps_of so schemas schema) \<subseteq> fst ` set schemas"
proof -
  have "distinct (so (remdups (traverse schema)))"
    using assms by (simp add: set_order_ok_def)
  then show "distinct (valid_deps_of so schemas schema)"
    by (simp add: valid_deps_of_def extract_schema_dependencies_def)
  show "set (valid_deps_of so schemas schema) \<subseteq> fst ` set schemas"
    by (auto simp: valid_deps_of_def has_key_def dest!: map_of_SomeD intro: rev_image_eqI)
qed

lemma valid_deps_of_set:
  assumes "set_order_ok so"
  shows "set (valid_deps_of so schemas schema) = {d \<in> set (traverse schema). has_key schemas d}"
  using assms by (auto simp: valid_deps_of_def extract_schema_dependencies_def set_order_ok_def)

lemma graph_ok_deps_fun:
  assumes "set_order_ok so" "distinct (map fst schemas)"
  shows "graph_ok (map fst schemas) (deps_fun so schemas)"
proof -
  have "distinct (deps_fun so schemas n) \<and> set (deps_fun so schemas n) \<subseteq> set (map fst schemas)" for n
  proof (cases "map_of schemas n")
    case None
    then show ?thesis by (simp add: deps_fun_def)
  next
    case (Some schema)
    then show ?thesis
      using valid_deps_of_ok[OF assms(1), of schemas schema] by (simp add: deps_fun_def)
  qed
  with assms(2) show ?thesis by (simp add: graph_ok_def)
qed

lemma build_graph_spec_aux:
  assumes ok: "set_order_ok so" and d: "distinct (map fst schemas)"
  shows "schemas = pre @ items \<Longrightarrow>
    build_graph so schemas items
      (map (\<lambda>n. (n, if n \<in> fst ` set pre then deps_fun so schemas n else [])) (map fst schemas))
      (map (\<lambda>d. (d, filter (\<lambda>n. d \<in> set (deps_fun so schemas n)) (map fst pre))) (map fst schemas))
    = (map (\<lambda>n. (n, deps_fun so schemas n)) (map fst schemas),
       dependents_of (map fst schemas) (deps_fun so schemas))"
proof (induction items arbitrary: pre)
  case Nil
  then show ?case by (auto simp: dependents_of_def)
next
  case (Cons item items)
  obtain name schema where item: "item = (name, schema)" by (cases item)
  let ?N = "map fst schemas"
  let ?D = "deps_fun so schemas"
  from Cons.prems item have mem: "(name, schema) \<in> set schemas" by simp
  with d have mo: "map_of schemas name = Some schema" by simp
  then have D: "?D name = valid_deps_of so schemas schema" by (simp add: deps_fun_def)
  from mem have nN: "name \<in> set ?N" by (auto intro: rev_image_eqI)
  from d Cons.prems item have npre: "name \<notin> fst ` set pre" by auto
  have dN: "distinct ?N" using d .
  have dD: "distinct (?D name)" "set (?D name) \<subseteq> set ?N"
    using graph_ok_deps_fun[OF ok d] by (auto simp: graph_ok_def)
  have s1: "AList.update name (valid_deps_of so schemas schema)
          (map (\<lambda>n. (n, if n \<in> fst ` set pre then ?D n else [])) ?N)
        = map (\<lambda>n. (n, if n \<in> fst ` set (pre @ [item]) then ?D n else [])) ?N"
    using dN nN by (subst update_map_fun) (auto simp: item D)
  have s2: "add_dependents name (valid_deps_of so schemas schema)
          (map (\<lambda>d. (d, filter (\<lambda>n. d \<in> set (?D n)) (map fst pre))) ?N)
        = map (\<lambda>d. (d, filter (\<lambda>n. d \<in> set (?D n)) (map fst (pre @ [item])))) ?N"
    unfolding D[symmetric] using dN dD
    by (subst add_dependents_spec) (auto simp: item)
  have "schemas = (pre @ [item]) @ items" using Cons.prems by simp
  from Cons.IH[OF this] show ?case
    unfolding item build_graph.simps s1[unfolded item] s2[unfolded item] by simp
qed

lemma build_graph_spec:
  assumes "set_order_ok so" "distinct (map fst schemas)"
  shows "build_graph so schemas schemas
      (map (\<lambda>name. (name, [])) (map fst schemas)) (map (\<lambda>name. (name, [])) (map fst schemas))
    = (map (\<lambda>n. (n, deps_fun so schemas n)) (map fst schemas),
       dependents_of (map fst schemas) (deps_fun so schemas))"
  using build_graph_spec_aux[OF assms, of "[]" schemas] by simp

lemma update_map_fun2:
  "distinct N \<Longrightarrow> k \<in> set N \<Longrightarrow>
   AList.update k v (map (\<lambda>d. (d, f d)) N) = map (\<lambda>d. (d, (f(k := v)) d)) N"
  by (simp add: update_map_fun)

lemma set_in_degrees_spec_aux:
  "distinct N \<Longrightarrow> set L \<subseteq> set N \<Longrightarrow>
   set_in_degrees (map (\<lambda>n. (n, g n)) L) (map (\<lambda>n. (n, h n)) N)
     = map (\<lambda>n. (n, if n \<in> set L then int (length (g n)) else h n)) N"
proof (induction L arbitrary: h)
  case Nil
  then show ?case by simp
next
  case (Cons a L)
  have "set_in_degrees (map (\<lambda>n. (n, g n)) (a # L)) (map (\<lambda>n. (n, h n)) N)
      = set_in_degrees (map (\<lambda>n. (n, g n)) L) (map (\<lambda>n. (n, (h(a := int (length (g a)))) n)) N)"
    using Cons.prems by (simp add: update_map_fun2)
  also have "\<dots> = map (\<lambda>n. (n, if n \<in> set L then int (length (g n)) else (h(a := int (length (g a)))) n)) N"
    using Cons.prems by (intro Cons.IH) auto
  also have "\<dots> = map (\<lambda>n. (n, if n \<in> set (a # L) then int (length (g n)) else h n)) N"
    by auto
  finally show ?case .
qed

lemma set_in_degrees_spec:
  "distinct N \<Longrightarrow>
   set_in_degrees (map (\<lambda>n. (n, D n)) N) (map (\<lambda>n. (n, 0)) N)
     = map (\<lambda>n. (n, int (length (D n)))) N"
  using set_in_degrees_spec_aux[of N N D "\<lambda>n. 0"] by simp

lemma kahn_emitted_graph:
  assumes "set_order_ok so" "distinct (map fst schemas)"
  shows "kahn_emitted so schemas =
     kahn_loop (dependents_of (map fst schemas) (deps_fun so schemas))
       (map (\<lambda>n. (n, int (length (deps_fun so schemas n)))) (map fst schemas))
       (filter (\<lambda>n. deps_fun so schemas n = []) (map fst schemas)) []"
proof -
  have q: "map fst (filter (\<lambda>(name, degree). degree = 0)
              (map (\<lambda>n. (n, int (length (D n)))) N)) = filter (\<lambda>n. D n = []) N"
    for D :: "string \<Rightarrow> string list" and N
    by (induction N) auto
  show ?thesis
    unfolding kahn_emitted_def Let_def build_graph_spec[OF assms] fst_conv snd_conv
      set_in_degrees_spec[OF assms(2)] q ..
qed

lemma map_snd_absent:
  "k \<notin> fst ` set al \<Longrightarrow> map (\<lambda>(k', v'). (k', if k' = k then v else v')) al = al"
  by (induction al) auto

lemma update_map_snd:
  "distinct (map fst al) \<Longrightarrow> k \<in> fst ` set al \<Longrightarrow>
   AList.update k v al = map (\<lambda>(k', v'). (k', if k' = k then v else v')) al"
  by (induction al) (auto simp: map_snd_absent)

lemma map_of_map_snd:
  "map_of (map (\<lambda>(k, v). (k, f k v)) al) k = map_option (f k) (map_of al k)"
  by (induction al) auto

lemma deg_map_snd:
  "deg (map (\<lambda>(k', v'). (k', f k' v')) al) k =
     (case map_of al k of Some v \<Rightarrow> f k v | None \<Rightarrow> 0)"
  by (induction al) (auto simp: deg_def)

lemma release_spec:
  "distinct (map fst in_degree) \<Longrightarrow> distinct L \<Longrightarrow> set L \<subseteq> fst ` set in_degree \<Longrightarrow>
   release L in_degree queue =
     (map (\<lambda>(k, v). (k, if k \<in> set L then v - 1 else v)) in_degree,
      queue @ filter (\<lambda>n. deg in_degree n = 1) L)"
proof (induction L arbitrary: in_degree queue)
  case Nil
  then show ?case by simp
next
  case (Cons d L)
  let ?al = "map (\<lambda>(k', v'). (k', if k' = d then deg in_degree d - 1 else v')) in_degree"
  have upd: "AList.update d (deg in_degree d - 1) in_degree = ?al"
    using Cons.prems by (intro update_map_snd) auto
  have keys: "map fst ?al = map fst in_degree" by (induction in_degree) auto
  have dk: "distinct (map fst ?al)" using Cons.prems(1) by (simp only: keys)
  have "fst ` set ?al = fst ` set in_degree" using keys by (metis list.set_map)
  then have sub: "set L \<subseteq> fst ` set ?al"
    using Cons.prems(3) by (simp del: set_map)
  have degd: "deg ?al d = deg in_degree d - 1"
    using Cons.prems upd deg_update_same by metis
  have dego: "deg ?al n = deg in_degree n" if "n \<noteq> d" for n
    unfolding upd[symmetric] using that by (simp add: deg_def update_conv')
  have flt: "filter (\<lambda>n. deg ?al n = 1) L = filter (\<lambda>n. deg in_degree n = 1) L"
  proof (rule filter_cong[OF refl])
    fix x assume "x \<in> set L"
    then have "x \<noteq> d" using Cons.prems(2) by auto
    from dego[OF this] show "(deg ?al x = 1) = (deg in_degree x = 1)" by (rule arg_cong)
  qed
  have mp: "map (\<lambda>(k, v). (k, if k \<in> set L then v - 1 else v)) ?al
          = map (\<lambda>(k, v). (k, if k \<in> set (d # L) then v - 1 else v)) in_degree"
  proof -
    have "((\<lambda>(k, v). (k, if k \<in> set L then v - 1 else v)) \<circ>
            (\<lambda>(k', v'). (k', if k' = d then deg in_degree d - 1 else v'))) x
          = (\<lambda>(k, v). (k, if k \<in> set (d # L) then v - 1 else v)) x"
      if "x \<in> set in_degree" for x
    proof -
      obtain k v where x: "x = (k, v)" by (cases x)
      have "k = d \<Longrightarrow> deg in_degree d = v"
        using that x Cons.prems(1) by (auto simp: deg_def)
      then show ?thesis using Cons.prems(2) by (auto simp: x)
    qed
    then show ?thesis unfolding map_map by (rule map_cong[OF refl])
  qed
  have dL: "distinct L" using Cons.prems(2) by simp
  have IH: "release L ?al q =
     (map (\<lambda>(k, v). (k, if k \<in> set L then v - 1 else v)) ?al,
      q @ filter (\<lambda>n. deg ?al n = 1) L)" for q
    by (rule Cons.IH[OF dk dL sub])
  have r: "release (d # L) in_degree queue =
      (if deg in_degree d = 1 then release L ?al (queue @ [d]) else release L ?al queue)"
    unfolding release.simps upd degd by simp
  show ?case
    unfolding r IH flt mp by simp
qed

definition kahn_inv ::
  "string list \<Rightarrow> (string \<Rightarrow> string list) \<Rightarrow> (string \<times> int) list \<Rightarrow> string list \<Rightarrow> string list \<Rightarrow> bool" where
  "kahn_inv N D in_degree queue sorted_names =
     (map fst in_degree = N
      \<and> distinct (sorted_names @ queue)
      \<and> set (sorted_names @ queue) \<subseteq> set N
      \<and> (\<forall>n \<in> set N. deg in_degree n = int (card (set (D n) - set sorted_names)))
      \<and> (\<forall>n \<in> set N. (n \<in> set (sorted_names @ queue)) = (set (D n) \<subseteq> set sorted_names))
      \<and> (\<forall>xs n ys. sorted_names = xs @ n # ys \<longrightarrow> set (D n) \<subseteq> set xs))"

lemma kahn_inv_init:
  assumes "graph_ok N D"
  shows "kahn_inv N D (map (\<lambda>n. (n, int (length (D n)))) N) (filter (\<lambda>n. D n = []) N) []"
  using assms
  by (auto simp: kahn_inv_def graph_ok_def deg_map_fun distinct_card comp_def)

lemma kahn_inv_step:
  assumes g: "graph_ok N D" and inv: "kahn_inv N D in_degree (c # queue) sorted_names"
  shows "kahn_inv N D (fst (release (list_of (dependents_of N D) c) in_degree queue))
           (snd (release (list_of (dependents_of N D) c) in_degree queue)) (sorted_names @ [c])"
proof -
  let ?L = "filter (\<lambda>n. c \<in> set (D n)) N"
  let ?P = "filter (\<lambda>n. deg in_degree n = 1) ?L"
  from g have dN: "distinct N" and dD: "\<And>n. distinct (D n)" and sD: "\<And>n. set (D n) \<subseteq> set N"
    by (auto simp: graph_ok_def)
  from inv have keys: "map fst in_degree = N"
    and dist: "distinct (sorted_names @ c # queue)"
    and sub: "set (sorted_names @ c # queue) \<subseteq> set N"
    and degs: "\<And>n. n \<in> set N \<Longrightarrow> deg in_degree n = int (card (set (D n) - set sorted_names))"
    and mem: "\<And>n. n \<in> set N \<Longrightarrow> (n \<in> set (sorted_names @ c # queue)) = (set (D n) \<subseteq> set sorted_names)"
    and ord: "\<And>xs n ys. sorted_names = xs @ n # ys \<Longrightarrow> set (D n) \<subseteq> set xs"
    by (auto simp: kahn_inv_def)
  from sub have cN: "c \<in> set N" by simp
  from dist have cs: "c \<notin> set sorted_names" by simp
  have L: "list_of (dependents_of N D) c = ?L"
    using cN by (simp add: dependents_of_def list_of_map_fun)
  have rel: "release ?L in_degree queue
      = (map (\<lambda>(k, v). (k, if k \<in> set ?L then v - 1 else v)) in_degree, queue @ ?P)"
  proof (rule release_spec)
    show "distinct (map fst in_degree)" using dN keys by simp
    show "distinct ?L" using dN by simp
    have "fst ` set in_degree = set N" using keys by (metis list.set_map)
    then show "set ?L \<subseteq> fst ` set in_degree" by auto
  qed
  let ?deg' = "map (\<lambda>(k, v). (k, if k \<in> set ?L then v - 1 else v)) in_degree"
  have keys': "map fst ?deg' = N" using keys by (auto simp: comp_def case_prod_beta)
  have deg': "deg ?deg' n = (if c \<in> set (D n) then deg in_degree n - 1 else deg in_degree n)"
    if "n \<in> set N" for n
  proof -
    from that keys obtain v where "map_of in_degree n = Some v"
      by (metis (no_types, opaque_lifting) domD dom_map_of_conv_image_fst list.set_map)
    moreover have "map_of ?deg' n
        = map_option (\<lambda>v. if n \<in> set ?L then v - 1 else v) (map_of in_degree n)"
      by (rule map_of_map_snd[of "\<lambda>k v. if k \<in> set ?L then v - 1 else v"])
    ultimately show ?thesis using that by (simp add: deg_def)
  qed
  have cardc: "int (card (set (D n) - set (sorted_names @ [c])))
      = (if c \<in> set (D n) then deg in_degree n - 1 else deg in_degree n)" if "n \<in> set N" for n
  proof -
    have fin: "finite (set (D n) - set sorted_names)" by simp
    have eq: "set (D n) - set (sorted_names @ [c]) = (set (D n) - set sorted_names) - {c}" by auto
    show ?thesis
    proof (cases "c \<in> set (D n)")
      case True
      then have "c \<in> set (D n) - set sorted_names" using cs by simp
      then have "card ((set (D n) - set sorted_names) - {c}) = card (set (D n) - set sorted_names) - 1"
        and "card (set (D n) - set sorted_names) > 0"
        using fin by (auto simp: card_gt_0_iff)
      then show ?thesis using True degs[OF that] eq by simp
    next
      case False
      then show ?thesis using degs[OF that] eq by simp
    qed
  qed
  have pushed: "n \<in> set ?P \<longleftrightarrow> n \<in> set N \<and> c \<in> set (D n) \<and> set (D n) - set sorted_names = {c}" for n
  proof -
    have "card (set (D n) - set sorted_names) = 1 \<longleftrightarrow> set (D n) - set sorted_names = {c}"
      if "c \<in> set (D n)"
    proof
      assume "card (set (D n) - set sorted_names) = 1"
      then obtain x where "set (D n) - set sorted_names = {x}" by (auto simp: card_1_singleton_iff)
      moreover have "c \<in> set (D n) - set sorted_names" using that cs by simp
      ultimately show "set (D n) - set sorted_names = {c}" by auto
    qed simp
    then show ?thesis using degs by auto
  qed
  have P_new: "n \<notin> set (sorted_names @ c # queue)" if "n \<in> set ?P" for n
  proof -
    from that have "n \<in> set N" "c \<in> set (D n)" by auto
    then have "\<not> set (D n) \<subseteq> set sorted_names" using cs by auto
    then show ?thesis using mem[OF \<open>n \<in> set N\<close>] by simp
  qed
  have dP: "distinct ?P" using dN by simp
  have i2: "distinct ((sorted_names @ [c]) @ queue @ ?P)"
    using dist dP P_new by auto
  have i3: "set ((sorted_names @ [c]) @ queue @ ?P) \<subseteq> set N"
    using sub by auto
  have i4: "\<forall>n \<in> set N. deg ?deg' n = int (card (set (D n) - set (sorted_names @ [c])))"
    using deg' cardc by simp
  have i5: "\<forall>n \<in> set N. (n \<in> set ((sorted_names @ [c]) @ queue @ ?P)) = (set (D n) \<subseteq> set (sorted_names @ [c]))"
  proof
    fix n assume nN: "n \<in> set N"
    show "(n \<in> set ((sorted_names @ [c]) @ queue @ ?P)) = (set (D n) \<subseteq> set (sorted_names @ [c]))"
    proof
      assume "n \<in> set ((sorted_names @ [c]) @ queue @ ?P)"
      then consider "n \<in> set (sorted_names @ c # queue)" | "n \<in> set ?P" by auto
      then show "set (D n) \<subseteq> set (sorted_names @ [c])"
      proof cases
        case 1
        then show ?thesis using mem[OF nN] by auto
      next
        case 2
        then have "set (D n) - set sorted_names = {c}" using pushed by simp
        then show ?thesis by auto
      qed
    next
      assume a: "set (D n) \<subseteq> set (sorted_names @ [c])"
      show "n \<in> set ((sorted_names @ [c]) @ queue @ ?P)"
      proof (cases "c \<in> set (D n)")
        case True
        then have "set (D n) - set sorted_names = {c}" using a cs by auto
        then have "n \<in> set ?P" using pushed nN True by simp
        then show ?thesis by simp
      next
        case False
        then have "set (D n) \<subseteq> set sorted_names" using a by auto
        then show ?thesis using mem[OF nN] by auto
      qed
    qed
  qed
  have i6: "\<forall>xs n ys. sorted_names @ [c] = xs @ n # ys \<longrightarrow> set (D n) \<subseteq> set xs"
  proof (intro allI impI)
    fix xs n ys assume e: "sorted_names @ [c] = xs @ n # ys"
    show "set (D n) \<subseteq> set xs"
    proof (cases ys rule: rev_cases)
      case Nil
      with e have "xs = sorted_names" "n = c" by auto
      moreover have "set (D c) \<subseteq> set sorted_names" using mem[OF cN] by simp
      ultimately show ?thesis by simp
    next
      case (snoc ys' y)
      with e have "sorted_names = xs @ n # ys'" by auto
      then show ?thesis by (rule ord)
    qed
  qed
  show ?thesis
    unfolding L rel fst_conv snd_conv kahn_inv_def
    using keys' i2 i3 i4 i5 i6 by blast
qed

lemma kahn_loop_inv:
  assumes "graph_ok N D"
  shows "kahn_inv N D in_degree queue sorted_names \<Longrightarrow>
    \<exists>in_degree'. kahn_inv N D in_degree' []
       (kahn_loop (dependents_of N D) in_degree queue sorted_names)"
proof (induction "dependents_of N D" in_degree queue sorted_names rule: kahn_loop.induct)
  case (1 in_degree sorted_names)
  then show ?case by auto
next
  case (2 in_degree current queue sorted_names)
  from kahn_inv_step[OF assms "2.prems"] "2.hyps" show ?case by simp
qed

lemma append_missing_eq:
  "distinct N \<Longrightarrow> append_missing N sorted_names = sorted_names @ filter (\<lambda>n. n \<notin> set sorted_names) N"
proof (induction N arbitrary: sorted_names)
  case Nil
  then show ?case by simp
next
  case (Cons a N)
  then have "filter (\<lambda>n. n \<notin> set (sorted_names @ [a])) N = filter (\<lambda>n. n \<notin> set sorted_names) N"
    by (intro filter_cong) auto
  with Cons show ?case by simp
qed

text \<open>
  The local dependency edges: \<open>(b, a)\<close> when schema \<open>a\<close> of the map depends on the
  name \<open>b\<close> of the map. \<open>precedes b a xs\<close>: \<open>a\<close> occurs in \<open>xs\<close> and \<open>b\<close> occurs before
  its first occurrence.
\<close>

definition local_edges ::
  "(string list \<Rightarrow> string list) \<Rightarrow> (string \<times> pyval) list \<Rightarrow> (string \<times> string) set" where
  "local_edges set_order schemas =
     {(b, a). a \<in> fst ` set schemas \<and> b \<in> set (deps_fun set_order schemas a)}"

definition precedes :: "string \<Rightarrow> string \<Rightarrow> string list \<Rightarrow> bool" where
  "precedes b a xs = (a \<in> set xs \<and> b \<in> set (takeWhile (\<lambda>x. x \<noteq> a) xs))"

lemma kahn_emitted_inv:
  assumes "set_order_ok so" "distinct (map fst schemas)"
  shows "\<exists>in_degree. kahn_inv (map fst schemas) (deps_fun so schemas) in_degree []
            (kahn_emitted so schemas)"
  unfolding kahn_emitted_graph[OF assms]
  by (rule kahn_loop_inv[OF graph_ok_deps_fun[OF assms] kahn_inv_init[OF graph_ok_deps_fun[OF assms]]])

lemma kahn_inv_mem:
  "kahn_inv N D in_degree [] R \<Longrightarrow> n \<in> set N \<Longrightarrow> (n \<in> set R) = (set (D n) \<subseteq> set R)"
  by (simp add: kahn_inv_def)

lemma precedes_append:
  "precedes b a xs \<Longrightarrow> precedes b a (xs @ ys)"
  by (auto simp: precedes_def takeWhile_append)

lemma precedes_split:
  assumes "xs = ys @ a # zs" "a \<notin> set ys" "b \<in> set ys"
  shows "precedes b a xs"
  using assms by (simp add: precedes_def takeWhile_append takeWhile_eq_all_conv[THEN iffD2])

lemma emitted_precedes:
  assumes inv: "kahn_inv N D in_degree [] R" and a: "a \<in> set R" and b: "b \<in> set (D a)"
  shows "precedes b a R"
proof -
  from a obtain ys zs where split: "R = ys @ a # zs" and nys: "a \<notin> set ys"
    by (meson split_list_first)
  from inv split have "set (D a) \<subseteq> set ys" by (auto simp: kahn_inv_def)
  with b have "b \<in> set ys" by auto
  with split nys show ?thesis by (rule precedes_split)
qed

lemma acc_emitted:
  assumes g: "graph_ok N D" and inv: "kahn_inv N D in_degree [] R"
    and acc: "a \<in> Wellfounded.acc {(b, a). a \<in> set N \<and> b \<in> set (D a)}"
  shows "a \<in> set N \<longrightarrow> a \<in> set R"
  using acc
proof (rule acc_induct)
  fix x
  assume IH: "\<forall>y. (y, x) \<in> {(b, a). a \<in> set N \<and> b \<in> set (D a)} \<longrightarrow> y \<in> set N \<longrightarrow> y \<in> set R"
  show "x \<in> set N \<longrightarrow> x \<in> set R"
  proof
    assume xN: "x \<in> set N"
    have "set (D x) \<subseteq> set R"
    proof
      fix y assume y: "y \<in> set (D x)"
      from g have "set (D x) \<subseteq> set N" by (simp add: graph_ok_def)
      with y have yN: "y \<in> set N" by auto
      from y xN have "(y, x) \<in> {(b, a). a \<in> set N \<and> b \<in> set (D a)}" by simp
      with IH yN show "y \<in> set R" by blast
    qed
    with inv xN show "x \<in> set R" by (simp add: kahn_inv_def)
  qed
qed

lemma topological_sort_split:
  assumes "set_order_ok so" "distinct (map fst schemas)"
  shows "topological_sort_schemas so schemas =
     kahn_emitted so schemas
       @ filter (\<lambda>n. n \<notin> set (kahn_emitted so schemas)) (map fst schemas)"
proof -
  from kahn_emitted_inv[OF assms] obtain in_degree where
    inv: "kahn_inv (map fst schemas) (deps_fun so schemas) in_degree [] (kahn_emitted so schemas)" ..
  let ?R = "kahn_emitted so schemas" and ?N = "map fst schemas"
  from inv have dR: "distinct ?R" and sR: "set ?R \<subseteq> set ?N" by (auto simp: kahn_inv_def)
  show ?thesis
  proof (cases "length ?R = length ?N")
    case True
    have "card (set ?R) = card (set ?N)"
      using True distinct_card[OF dR] distinct_card[OF assms(2)] by (simp only:)
    with sR have "set ?R = set ?N" by (simp add: card_subset_eq)
    then have "filter (\<lambda>n. n \<notin> set ?R) ?N = []" by (simp add: filter_empty_conv)
    with True show ?thesis by (simp add: topological_sort_schemas_def Let_def)
  next
    case False
    then show ?thesis
      using append_missing_eq[OF assms(2), of ?R]
      by (simp add: topological_sort_schemas_def Let_def)
  qed
qed

lemma topological_sort_order_independent:
  assumes "set_order_ok so1" "set_order_ok so2" "distinct (map fst schemas)"
  shows "topological_sort_schemas so1 schemas = topological_sort_schemas so2 schemas"
proof -
  let ?N = "map fst schemas"
  have s: "set (deps_fun so1 schemas n) = set (deps_fun so2 schemas n)" for n
    using valid_deps_of_set[OF assms(1)] valid_deps_of_set[OF assms(2)]
    by (simp add: deps_fun_def split: option.splits)
  have d1: "distinct (deps_fun so1 schemas n)" and d2: "distinct (deps_fun so2 schemas n)" for n
    using graph_ok_deps_fun[OF assms(1,3)] graph_ok_deps_fun[OF assms(2,3)]
    by (simp_all add: graph_ok_def)
  have len: "length (deps_fun so1 schemas n) = length (deps_fun so2 schemas n)" for n
    using s[of n] d1[of n] d2[of n] by (metis distinct_card)
  have nil: "(deps_fun so1 schemas n = []) = (deps_fun so2 schemas n = [])" for n
    using len[of n] by (metis length_0_conv)
  have "kahn_emitted so1 schemas = kahn_emitted so2 schemas"
    unfolding kahn_emitted_graph[OF assms(1,3)] kahn_emitted_graph[OF assms(2,3)]
      dependents_of_def
    by (simp add: s len nil)
  then show ?thesis by (simp add: topological_sort_schemas_def Let_def)
qed

section \<open>utils.py and to\_python.py: emitting declarations\<close>

text \<open>\<^verbatim>\<open>utils.to_pascal_case\<close>: the non-empty ASCII alphanumeric runs, first letter upper-cased.\<close>

definition to_pascal_case :: "string \<Rightarrow> string" where
  "to_pascal_case v =
     concat (map (\<lambda>part. str_upper (take 1 part) @ drop 1 part)
               (runs_aux (\<lambda>c. \<not> is_alnum_c c) [] v))"

definition is_object_like :: "(string \<times> pyval) list \<Rightarrow> bool" where
  "is_object_like schema = (dget schema ''type'' = PStr ''object'' \<or> has_key schema ''properties'')"

definition is_freeform_object :: "pyval \<Rightarrow> bool" where
  "is_freeform_object schema =
     (case schema of
        PDict s \<Rightarrow>
          if \<not> is_object_like s then False
          else \<not> truthy (dget s ''properties'') \<and> dget s ''additionalProperties'' \<noteq> PBool False
      | _ \<Rightarrow> False)"

definition should_inline_object_model :: "pyval \<Rightarrow> bool" where
  "should_inline_object_model schema =
     (case schema of
        PDict s \<Rightarrow>
          if truthy (dget s ''$ref'') \<or> truthy (dget s ''oneOf'') \<or> truthy (dget s ''allOf'')
          then False
          else if \<not> is_object_like s then False
          else if is_freeform_object schema then False
          else True
      | _ \<Rightarrow> False)"

definition nested_ref_schema :: "string \<Rightarrow> pyval \<Rightarrow> pyval" where
  "nested_ref_schema nested_name prop_schema =
     PDict ([(''$ref'', PStr (components_prefix @ nested_name))] @
            (case prop_schema of
               PDict p \<Rightarrow> if dget p ''nullable'' = PBool True then [(''nullable'', PBool True)] else []
             | _ \<Rightarrow> []))"

text \<open>
  The loop of \<^verbatim>\<open>_extract_inline_object_models\<close> over \<^verbatim>\<open>properties.items()\<close>. \<open>emit\<close> is
  \<^verbatim>\<open>_emit_schema_definition\<close>, with which the source is mutually recursive.
\<close>

fun inline_loop ::
  "(string \<Rightarrow> pyval \<Rightarrow> string list result) \<Rightarrow> string \<Rightarrow> (string \<times> pyval) list \<Rightarrow>
   string list \<Rightarrow> (string \<times> pyval) list \<Rightarrow> (string list \<times> (string \<times> pyval) list) result" where
  "inline_loop emit parent_name [] nested_lines updated_props = Inr (nested_lines, updated_props)"
| "inline_loop emit parent_name ((prop_name, prop_schema) # rest) nested_lines updated_props =
     (if \<not> should_inline_object_model prop_schema
      then inline_loop emit parent_name rest nested_lines updated_props
      else
        (case emit (parent_name @ to_pascal_case prop_name) prop_schema of
           Inl e \<Rightarrow> Inl e
         | Inr ls \<Rightarrow>
             inline_loop emit parent_name rest (nested_lines @ ls)
               (AList.update prop_name
                  (nested_ref_schema (parent_name @ to_pascal_case prop_name) prop_schema)
                  updated_props)))"

text \<open>
  \<^verbatim>\<open>updated_props == properties\<close> holds exactly when no property was replaced (a replaced
  value has a non-empty \<^verbatim>\<open>$ref\<close>, the original had none), where the two association lists
  are the same.
\<close>

definition extract_inline_object_models ::
  "(string \<Rightarrow> pyval \<Rightarrow> string list result) \<Rightarrow> string \<Rightarrow> pyval \<Rightarrow> (string list \<times> pyval) result" where
  "extract_inline_object_models emit parent_name schema =
     (case schema of
        PDict s \<Rightarrow>
          (case dget s ''properties'' of
             PDict properties \<Rightarrow>
               (case inline_loop emit parent_name properties [] properties of
                  Inl e \<Rightarrow> Inl e
                | Inr (nested_lines, updated_props) \<Rightarrow>
                    if updated_props = properties then Inr (nested_lines, schema)
                    else Inr (nested_lines, PDict (AList.update ''properties'' (PDict updated_props) s)))
           | _ \<Rightarrow> Inr ([], schema))
      | _ \<Rightarrow> Inr ([], schema))"

definition valid_identifier_char :: "char \<Rightarrow> bool" where
  "valid_identifier_char c = (c = CHR ''_'' \<or> is_alnum_c c)"

definition sanitize_identifier :: "string \<Rightarrow> string" where
  "sanitize_identifier name =
     (let result = map (\<lambda>ch. if valid_identifier_char ch then ch else CHR ''_'') name;
          result2 = (case result of
                       c # cs \<Rightarrow> if is_upper_c c \<and> str_islower cs then lower_c c # cs else result
                     | [] \<Rightarrow> result);
          result3 = (case result2 of
                       c # cs \<Rightarrow> if is_digit_c c then CHR ''_'' # result2 else result2
                     | [] \<Rightarrow> ''_'')
      in if iskeyword result3 then result3 @ ''_'' else result3)"

text \<open>
  The \<^verbatim>\<open>while\<close> loop of \<^verbatim>\<open>_dedupe_name\<close>. It ends because a candidate in \<^verbatim>\<open>used\<close> is no
  longer than the total length of \<^verbatim>\<open>used\<close>, while the decimal numeral of the index grows
  without bound.
\<close>

lemma str_nat_bound: "n < 10 ^ length (str_nat n)"
proof (induction n rule: str_nat.induct)
  case (1 n)
  show ?case
  proof (cases "n < 10")
    case True
    then show ?thesis by (subst str_nat.simps) simp
  next
    case False
    with 1 have "n div 10 < 10 ^ length (str_nat (n div 10))" by simp
    then have "n < 10 * 10 ^ length (str_nat (n div 10))" by linarith
    with False show ?thesis by (subst str_nat.simps) simp
  qed
qed

lemma member_length_le: "s \<in> set xs \<Longrightarrow> length s \<le> sum_list (map length xs)"
  by (induction xs) auto

lemma used_index_bound:
  assumes "name @ ''_'' @ str_nat index \<in> set used"
  shows "index < 10 ^ sum_list (map length used)"
proof -
  have "length (str_nat index) \<le> sum_list (map length used)"
    using member_length_le[OF assms] by simp
  then have "(10::nat) ^ length (str_nat index) \<le> 10 ^ sum_list (map length used)"
    by (simp add: power_increasing)
  with str_nat_bound[of index] show ?thesis by linarith
qed

function dedupe_index :: "string \<Rightarrow> string list \<Rightarrow> nat \<Rightarrow> nat" where
  "dedupe_index name used index =
     (if name @ ''_'' @ str_nat index \<in> set used then dedupe_index name used (index + 1)
      else index)"
  by pat_completeness auto
termination
proof (relation "measure (\<lambda>(name, used, index). 10 ^ sum_list (map length used) - index)")
  show "wf (measure (\<lambda>(name, used, index). 10 ^ sum_list (map length used) - index))" by simp
next
  fix name :: string and used index
  assume "name @ ''_'' @ str_nat index \<in> set used"
  from used_index_bound[OF this]
  show "((name, used, index + 1), (name, used, index))
          \<in> measure (\<lambda>(name, used, index). 10 ^ sum_list (map length used) - index)"
    by simp
qed

definition dedupe_name :: "string \<Rightarrow> string list \<Rightarrow> string \<times> string list" where
  "dedupe_name name used =
     (if name \<notin> set used then (name, used @ [name])
      else (name @ ''_'' @ str_nat (dedupe_index name used 2),
            used @ [name @ ''_'' @ str_nat (dedupe_index name used 2)]))"

text \<open>
  \<^verbatim>\<open>set(schema.get("required", []))\<close> and the later tests \<^verbatim>\<open>prop_name in required\<close>: the
  strings of the set. A list gives its string elements and raises \<^verbatim>\<open>TypeError\<close> on an
  unhashable element; a string gives its characters, a dict its keys; \<^verbatim>\<open>None\<close>, a bool
  or a number is not iterable and raises \<^verbatim>\<open>TypeError\<close>.
\<close>

definition required_names :: "(string \<times> pyval) list \<Rightarrow> string list result" where
  "required_names schema =
     (case map_of schema ''required'' of
        None \<Rightarrow> Inr []
      | Some (PList xs) \<Rightarrow>
          if list_all hashable xs
          then Inr (concat (map (\<lambda>x. case x of PStr s \<Rightarrow> [s] | _ \<Rightarrow> []) xs))
          else Inl TypeError
      | Some (PStr s) \<Rightarrow> Inr (map (\<lambda>c. [c]) s)
      | Some (PDict kvs) \<Rightarrow> Inr (map fst kvs)
      | Some _ \<Rightarrow> Inl TypeError)"

record model_acc =
  used_names :: "string list"
  alias_used :: bool
  field_lines :: "string list"

text \<open>The loop of \<^verbatim>\<open>_generate_model_lines\<close> over \<^verbatim>\<open>properties.items()\<close>.\<close>

fun model_fields ::
  "PydanticSchemaRegistry \<Rightarrow> string list \<Rightarrow> (string \<times> pyval) list \<Rightarrow> model_acc \<Rightarrow> model_acc result" where
  "model_fields r required [] acc = Inr acc"
| "model_fields r required ((prop_name, prop_schema) # rest) acc =
     (let attr_name = fst (dedupe_name (sanitize_identifier prop_name) (used_names acc));
          used = snd (dedupe_name (sanitize_identifier prop_name) (used_names acc));
          alias = (attr_name \<noteq> prop_name \<and> prop_name \<noteq> [])
      in case schema_to_type_expr r prop_schema of
           Inl e \<Rightarrow> Inl e
         | Inr type_expr \<Rightarrow>
             model_fields r required rest
               \<lparr>used_names = used,
                alias_used = (alias_used acc \<or> alias),
                field_lines = field_lines acc @
                  [''    '' @ attr_name @ '': '' @ type_expr @
                   (if prop_name \<in> set required
                    then (if alias then '' = Field(alias='' @ repr_str prop_name @ '')'' else [])
                    else (if alias then '' = Field(default=None, alias='' @ repr_str prop_name @ '')''
                          else '' = None''))]\<rparr>)"

definition generate_model_lines ::
  "PydanticSchemaRegistry \<Rightarrow> string \<Rightarrow> pyval \<Rightarrow> string list \<Rightarrow> string list result" where
  "generate_model_lines r name schema base_classes =
     (case (case schema of PDict s \<Rightarrow> required_names s | _ \<Rightarrow> Inr []) of
        Inl e \<Rightarrow> Inl e
      | Inr required \<Rightarrow>
          (case model_fields r required
                  (case schema of
                     PDict s \<Rightarrow> (case dget s ''properties'' of PDict properties \<Rightarrow> properties | _ \<Rightarrow> [])
                   | _ \<Rightarrow> [])
                  \<lparr>used_names = [], alias_used = False, field_lines = []\<rparr> of
             Inl e \<Rightarrow> Inl e
           | Inr acc \<Rightarrow>
               (let bases = (if base_classes = [] then [''BaseModel''] else base_classes);
                    config_args =
                      (if alias_used acc then [''populate_by_name=True''] else []) @
                      (if (case schema of PDict s \<Rightarrow> dget s ''additionalProperties'' = PBool False
                           | _ \<Rightarrow> False)
                       then [''extra='' @ sq @ ''forbid'' @ sq] else [])
                in Inr ([''class '' @ name @ ''('' @ join '', '' bases @ ''):''] @
                        (if config_args \<noteq> []
                         then [''    model_config = ConfigDict('' @ join '', '' config_args @ '')'']
                         else []) @
                        (if field_lines acc \<noteq> [] then field_lines acc else [''    pass''])))))"

text \<open>
  Python's \<^verbatim>\<open>==\<close> on JSON values: \<^verbatim>\<open>True == 1\<close> and \<^verbatim>\<open>False == 0\<close>, lists compare
  elementwise, dicts as maps whatever the insertion order.
\<close>

function py_eq :: "pyval \<Rightarrow> pyval \<Rightarrow> bool" where
  "py_eq PNone y = (y = PNone)"
| "py_eq (PBool a) y =
     (case y of PBool b \<Rightarrow> a = b | PInt i \<Rightarrow> i = (if a then 1 else 0) | _ \<Rightarrow> False)"
| "py_eq (PInt i) y =
     (case y of PInt j \<Rightarrow> i = j | PBool b \<Rightarrow> i = (if b then 1 else 0) | _ \<Rightarrow> False)"
| "py_eq (PStr s) y = (y = PStr s)"
| "py_eq (PList xs) y = (case y of PList ys \<Rightarrow> list_all2 py_eq xs ys | _ \<Rightarrow> False)"
| "py_eq (PDict a) y =
     (case y of
        PDict b \<Rightarrow>
          length a = length b \<and>
          list_all (\<lambda>(k, v). case map_of b k of Some w \<Rightarrow> py_eq v w | None \<Rightarrow> False) a
      | _ \<Rightarrow> False)"
  by pat_completeness auto
termination
  by (relation "measure (\<lambda>(x, y). size x)")
     (auto intro: size_list_member[simplified] size_dict_value[simplified])

text \<open>
  The loop over \<^verbatim>\<open>schema["allOf"]\<close> in \<^verbatim>\<open>_emit_schema_definition\<close>, with its five
  accumulators.
\<close>

record allof_acc =
  base_classes :: "string list"
  inline_properties :: "(string \<times> pyval) list"
  inline_required :: "pyval list"
  additional_false :: bool
  non_object_part :: bool

fun add_required :: "pyval list \<Rightarrow> pyval list \<Rightarrow> pyval list" where
  "add_required [] seen = seen"
| "add_required (item # items) seen =
     (if \<not> list_ex (py_eq item) seen
      then add_required items (seen @ [item])
      else add_required items seen)"

fun update_all :: "(string \<times> pyval) list \<Rightarrow> (string \<times> pyval) list \<Rightarrow> (string \<times> pyval) list" where
  "update_all [] d = d"
| "update_all ((k, v) # rest) d = update_all rest (AList.update k v d)"

fun merge_all_of :: "pyval list \<Rightarrow> allof_acc \<Rightarrow> allof_acc" where
  "merge_all_of [] acc = acc"
| "merge_all_of (PDict part # parts) acc =
     (case dget part ''$ref'' of
        PStr ref \<Rightarrow>
          merge_all_of parts (acc\<lparr>base_classes := base_classes acc @ [decode_ref_name ref]\<rparr>)
      | _ \<Rightarrow>
          if is_object_like part then
            merge_all_of parts
              (acc\<lparr>inline_properties :=
                     (case dget part ''properties'' of
                        PDict props \<Rightarrow> update_all props (inline_properties acc)
                      | _ \<Rightarrow> inline_properties acc),
                   inline_required :=
                     (case dget part ''required'' of
                        PList required \<Rightarrow> add_required required (inline_required acc)
                      | _ \<Rightarrow> inline_required acc),
                   additional_false :=
                     (additional_false acc \<or> dget part ''additionalProperties'' = PBool False)\<rparr>)
          else merge_all_of parts (acc\<lparr>non_object_part := True\<rparr>))"
| "merge_all_of (_ # parts) acc = merge_all_of parts acc"

definition all_of_merge :: "pyval \<Rightarrow> allof_acc option" where
  "all_of_merge schema =
     (case schema of
        PDict s \<Rightarrow>
          (case dget s ''allOf'' of
             PList parts \<Rightarrow>
               (let acc = merge_all_of parts
                            \<lparr>base_classes = [], inline_properties = [], inline_required = [],
                             additional_false = False, non_object_part = False\<rparr>
                in if non_object_part acc then None else Some acc)
           | _ \<Rightarrow> None)
      | _ \<Rightarrow> None)"

definition merged_schema :: "allof_acc \<Rightarrow> pyval" where
  "merged_schema acc =
     PDict ([(''type'', PStr ''object''),
             (''properties'', PDict (inline_properties acc)),
             (''required'', PList (inline_required acc))] @
            (if additional_false acc then [(''additionalProperties'', PBool False)] else []))"

lemma inline_loop_cong [fundef_cong]:
  assumes "parent = parent'" "props = props'" "nl = nl'" "up = up'"
    and "\<And>k v. (k, v) \<in> set props' \<Longrightarrow> should_inline_object_model v \<Longrightarrow>
           f (parent' @ to_pascal_case k) v = g (parent' @ to_pascal_case k) v"
  shows "inline_loop f parent props nl up = inline_loop g parent' props' nl' up'"
  using assms(5) unfolding assms(1-4)
proof (induction props' arbitrary: nl' up')
  case Nil
  then show ?case by simp
next
  case (Cons a props')
  obtain k v where a: "a = (k, v)" by (cases a)
  have IH: "inline_loop f parent' props' nl up = inline_loop g parent' props' nl up" for nl up
    by (rule Cons.IH) (simp add: Cons.prems)
  show ?case
  proof (cases "should_inline_object_model v")
    case False
    then show ?thesis unfolding a by (simp add: IH)
  next
    case True
    then have "f (parent' @ to_pascal_case k) v = g (parent' @ to_pascal_case k) v"
      using Cons.prems[of k v] a by simp
    then show ?thesis unfolding a by (simp add: IH split: sum.splits)
  qed
qed

lemma extract_inline_object_models_cong [fundef_cong]:
  assumes "parent = parent'" "schema = schema'"
    and "\<And>s props k v. schema' = PDict s \<Longrightarrow> dget s ''properties'' = PDict props \<Longrightarrow>
           (k, v) \<in> set props \<Longrightarrow> should_inline_object_model v \<Longrightarrow>
           f (parent' @ to_pascal_case k) v = g (parent' @ to_pascal_case k) v"
  shows "extract_inline_object_models f parent schema = extract_inline_object_models g parent' schema'"
proof -
  have "inline_loop f parent' props [] props = inline_loop g parent' props [] props"
    if "schema' = PDict s" "dget s ''properties'' = PDict props" for s props
    using assms(3)[OF that] by (intro inline_loop_cong) auto
  then show ?thesis
    unfolding assms(1,2) extract_inline_object_models_def
    by (auto split: pyval.splits)
qed

lemma update_all_member:
  "(k, v) \<in> set (update_all props d) \<Longrightarrow> (k, v) \<in> set props \<or> (k, v) \<in> set d"
proof (induction props arbitrary: d)
  case Nil
  then show ?case by simp
next
  case (Cons a props)
  obtain k' v' where a: "a = (k', v')" by (cases a)
  have "(k, v) \<in> set (AList.update k' v' d) \<Longrightarrow> (k, v) = (k', v') \<or> (k, v) \<in> set d" for d
    by (induction d) (auto split: if_splits)
  with Cons show ?case unfolding a by fastforce
qed

lemma merge_all_of_member:
  "(k, v) \<in> set (inline_properties (merge_all_of parts acc)) \<Longrightarrow>
   (k, v) \<in> set (inline_properties acc) \<or>
   (\<exists>part props. PDict part \<in> set parts \<and> dget part ''properties'' = PDict props \<and> (k, v) \<in> set props)"
proof (induction parts acc rule: merge_all_of.induct)
  case (1 acc)
  then show ?case by simp
next
  case (2 part parts acc)
  then show ?case
    by (auto split: pyval.splits if_splits dest!: update_all_member)
qed auto

lemma all_of_merge_size:
  assumes "all_of_merge schema = Some acc" "(k, v) \<in> set (inline_properties acc)"
  shows "size v < size schema"
proof -
  from assms(1) obtain s parts where s: "schema = PDict s" and p: "dget s ''allOf'' = PList parts"
    and acc: "acc = merge_all_of parts
                            \<lparr>base_classes = [], inline_properties = [], inline_required = [],
                             additional_false = False, non_object_part = False\<rparr>"
    by (auto simp: all_of_merge_def Let_def split: pyval.splits if_splits)
  from merge_all_of_member[OF assms(2)[unfolded acc]]
  obtain part props where m: "PDict part \<in> set parts" and pp: "dget part ''properties'' = PDict props"
    and kv: "(k, v) \<in> set props" by auto
  have "size v < size (PDict part)" by (rule size_dget_value[OF pp kv])
  moreover have "size (PDict part) < size (PDict s)" by (rule size_dget_member[OF p m])
  ultimately show ?thesis unfolding s by linarith
qed

lemma merged_schema_properties:
  "merged_schema acc = PDict s \<Longrightarrow> dget s ''properties'' = PDict props \<Longrightarrow>
   props = inline_properties acc"
  by (auto simp: merged_schema_def dget_def split: if_splits)

text \<open>
  \<^verbatim>\<open>_emit_schema_definition\<close>. \<^verbatim>\<open>model_lines.insert(1, ...)\<close> puts the \<^verbatim>\<open>__openapi_allof__\<close>
  line after the class line.
\<close>

definition adapter_lines :: "string \<Rightarrow> string list" where
  "adapter_lines name =
     [name @ ''.model_rebuild()'', name @ ''Schema = TypeAdapter('' @ name @ '')'', []]"

definition alias_lines :: "string \<Rightarrow> string \<Rightarrow> string list" where
  "alias_lines name type_expr =
     [name @ '': TypeAlias = '' @ type_expr, name @ ''Schema = TypeAdapter('' @ name @ '')'', []]"

definition insert_second :: "string \<Rightarrow> string list \<Rightarrow> string list" where
  "insert_second x xs = (case xs of [] \<Rightarrow> [x] | y # ys \<Rightarrow> y # x # ys)"

function emit_schema_definition ::
  "PydanticSchemaRegistry \<Rightarrow> string \<Rightarrow> pyval \<Rightarrow> string list result" where
  "emit_schema_definition r name schema =
     (case all_of_merge schema of
        Some acc \<Rightarrow>
          (case extract_inline_object_models (emit_schema_definition r) name (merged_schema acc) of
             Inl e \<Rightarrow> Inl e
           | Inr (nested_lines, merged) \<Rightarrow>
               (case generate_model_lines r name merged (base_classes acc) of
                  Inl e \<Rightarrow> Inl e
                | Inr model_lines \<Rightarrow>
                    Inr (nested_lines @
                         insert_second
                           (''    __openapi_allof__ = '' @
                              repr (case schema of PDict s \<Rightarrow> dget s ''allOf'' | _ \<Rightarrow> PNone))
                           model_lines @
                         adapter_lines name)))
      | None \<Rightarrow>
          if is_freeform_object schema then Inr (alias_lines name ''dict[str, Any]'')
          else if (case schema of PDict s \<Rightarrow> is_object_like s | _ \<Rightarrow> False) then
            (case extract_inline_object_models (emit_schema_definition r) name schema of
               Inl e \<Rightarrow> Inl e
             | Inr (nested_lines, schema2) \<Rightarrow>
                 (case generate_model_lines r name schema2 [] of
                    Inl e \<Rightarrow> Inl e
                  | Inr model_lines \<Rightarrow> Inr (nested_lines @ model_lines @ adapter_lines name)))
          else
            (case schema_to_type_expr r schema of
               Inl e \<Rightarrow> Inl e
             | Inr type_expr \<Rightarrow> Inr (alias_lines name type_expr)))"
  by pat_completeness auto
termination
proof (relation "measure (\<lambda>(r, name, schema). size schema)")
  show "wf (measure (\<lambda>(r, name, schema). size schema))" by simp
next
  fix r :: PydanticSchemaRegistry and name :: string and schema acc s props k v
  assume "all_of_merge schema = Some acc" "merged_schema acc = PDict s"
    "dget s ''properties'' = PDict props" "(k, v) \<in> set props"
  then show "((r, name @ to_pascal_case k, v), (r, name, schema))
               \<in> measure (\<lambda>(r, name, schema). size schema)"
    using all_of_merge_size[of schema acc k v] merged_schema_properties[of acc s props] by simp
next
  fix r :: PydanticSchemaRegistry and name :: string and schema s props k v
  assume "schema = PDict s" "dget s ''properties'' = PDict props" "(k, v) \<in> set props"
  then show "((r, name @ to_pascal_case k, v), (r, name, schema))
               \<in> measure (\<lambda>(r, name, schema). size schema)"
    using size_dget_value[of s "''properties''" props k v] by simp
qed

definition emit_schema_alias :: "string \<Rightarrow> string \<Rightarrow> string list" where
  "emit_schema_alias name canonical =
     [name @ '' = '' @ canonical, name @ ''Schema = '' @ canonical @ ''Schema'']"

text \<open>
  \<^verbatim>\<open>to_python._generate_route_schema_name\<close>: \<^verbatim>\<open>method[0]\<close> raises \<^verbatim>\<open>IndexError\<close> on an empty
  method.
\<close>

definition generate_route_schema_name :: "string \<Rightarrow> string \<Rightarrow> string \<Rightarrow> string result" where
  "generate_route_schema_name p m suffix =
     (case m of
        [] \<Rightarrow> Inl IndexError
      | c # cs \<Rightarrow>
          Inr (concat ([c # str_lower cs] @
                 map (\<lambda>part. concat (map capitalize (split_ws part)))
                   (map (\<lambda>segment. replace_c CHR ''_'' CHR '' ''
                                     (replace_c CHR ''-'' CHR '' '' (strip_chars segment ''{}'')))
                      (filter (\<lambda>segment. segment \<noteq> []) (split p ''/''))) @
                 [suffix])))"

definition response_suffix :: "string \<Rightarrow> string" where
  "response_suffix status_code =
     status_code @ (if startswith status_code ''2'' then ''Response'' else ''ErrorResponse'')"

text \<open>
  The inner loop of \<^verbatim>\<open>_collect_route_schemas\<close>, also run by \<^verbatim>\<open>_generate_route_schemas\<close>:
  every response whose schema is truthy, whatever its status code, with its derived name.
\<close>

definition response_items :: "RouteInfo \<Rightarrow> (string result \<times> pyval) list" where
  "response_items route =
     map (\<lambda>(status_code, response_schema).
            (generate_route_schema_name (ri_path route) (ri_method route)
               (response_suffix status_code), response_schema))
       (filter (\<lambda>(status_code, response_schema). truthy response_schema) (ri_responses route))"

fun named_items :: "(string result \<times> pyval) list \<Rightarrow> NamedSchema list result" where
  "named_items [] = Inr []"
| "named_items ((Inl e, schema) # rest) = Inl e"
| "named_items ((Inr name, schema) # rest) =
     (case named_items rest of
        Inl e \<Rightarrow> Inl e
      | Inr collected \<Rightarrow> Inr (\<lparr>ns_name = name, ns_schema = schema\<rparr> # collected))"

definition collect_route_schemas :: "RouteInfo list \<Rightarrow> NamedSchema list result" where
  "collect_route_schemas routes = named_items (concat (map response_items routes))"

text \<open>
  \<^verbatim>\<open>_build_openapi_object_schema\<close>; a parameter is given as name, schema and the value of
  \<^verbatim>\<open>required\<close>. In the dict comprehension a repeated name keeps its first position and
  takes the last schema.
\<close>

definition build_openapi_object_schema :: "(string \<times> pyval \<times> bool) list \<Rightarrow> pyval" where
  "build_openapi_object_schema params =
     PDict [(''type'', PStr ''object''),
            (''properties'', PDict (update_all (map (\<lambda>(n, s, req). (n, s)) params) [])),
            (''required'', PList (map (\<lambda>(n, s, req). PStr n) (filter (\<lambda>(n, s, req). req) params)))]"

text \<open>
  The schemas that \<^verbatim>\<open>_generate_route_schemas\<close> registers for one route, in the order of its
  calls of \<^verbatim>\<open>register_and_emit\<close>: path parameters, query, headers, body, then the responses.
  A name is an error when computing it raises.
\<close>

definition params_at :: "string \<Rightarrow> RouteInfo \<Rightarrow> RouteParameter list" where
  "params_at location route = filter (\<lambda>q. rp_location q = location) (ri_parameters route)"

definition named_truthy :: "string option \<Rightarrow> bool" where
  "named_truthy n = (case n of Some s \<Rightarrow> s \<noteq> [] | None \<Rightarrow> False)"

definition route_items :: "RouteInfo \<Rightarrow> (string result \<times> pyval) list" where
  "route_items route =
     (let names = generate_route_schema_names route in
      (case params_schema_name names of
         Some n \<Rightarrow>
           if n \<noteq> [] \<and> params_at ''path'' route \<noteq> []
           then [(Inr n, build_openapi_object_schema
                           (map (\<lambda>q. (rp_name q, rp_schema q, True)) (params_at ''path'' route)))]
           else []
       | None \<Rightarrow> []) @
      (case query_schema_name names of
         Some n \<Rightarrow>
           if n \<noteq> [] \<and> params_at ''query'' route \<noteq> []
           then [(Inr n, build_openapi_object_schema
                           (map (\<lambda>q. (rp_name q, rp_schema q, rp_required q))
                              (params_at ''query'' route)))]
           else []
       | None \<Rightarrow> []) @
      (case headers_schema_name names of
         Some n \<Rightarrow>
           if n \<noteq> [] \<and> params_at ''header'' route \<noteq> []
           then [(Inr n, build_openapi_object_schema
                           (map (\<lambda>q. (rp_name q, rp_schema q, rp_required q))
                              (params_at ''header'' route)))]
           else []
       | None \<Rightarrow> []) @
      (case body_schema_name names of
         Some n \<Rightarrow>
           if n \<noteq> [] \<and> ri_request_body route \<noteq> PNone then [(Inr n, ri_request_body route)] else []
       | None \<Rightarrow> []) @
      response_items route)"

text \<open>
  The state that \<^verbatim>\<open>register_and_emit\<close> works on: the fingerprint registry, the
  \<^verbatim>\<open>declarations\<close> list and the \<^verbatim>\<open>schema_name_to_canonical\<close> dict.
\<close>

record emit_state =
  es_registry :: SchemaRegistry
  es_declarations :: "string list"
  es_canonical :: "(string \<times> string) list"

definition register_and_emit ::
  "PydanticSchemaRegistry \<Rightarrow> emit_state \<Rightarrow> string \<Rightarrow> pyval \<Rightarrow> emit_state result" where
  "register_and_emit r st schema_name schema =
     (let res = fst (register_schema (es_registry st) schema_name schema);
          registry = snd (register_schema (es_registry st) schema_name schema);
          canonical = AList.update schema_name (canonical_name res) (es_canonical st)
      in if is_new res then
           (case emit_schema_definition r schema_name schema of
              Inl e \<Rightarrow> Inl e
            | Inr ls \<Rightarrow>
                Inr \<lparr>es_registry = registry, es_declarations = es_declarations st @ ls,
                     es_canonical = canonical\<rparr>)
         else if schema_name \<noteq> canonical_name res then
           Inr \<lparr>es_registry = registry,
                es_declarations = es_declarations st
                  @ emit_schema_alias schema_name (canonical_name res) @ [[]],
                es_canonical = canonical\<rparr>
         else
           Inr \<lparr>es_registry = registry, es_declarations = es_declarations st,
                es_canonical = canonical\<rparr>)"

fun register_items ::
  "PydanticSchemaRegistry \<Rightarrow> (string result \<times> pyval) list \<Rightarrow> emit_state \<Rightarrow> emit_state result" where
  "register_items r [] st = Inr st"
| "register_items r ((Inl e, schema) # rest) st = Inl e"
| "register_items r ((Inr schema_name, schema) # rest) st =
     (case register_and_emit r st schema_name schema of
        Inl e \<Rightarrow> Inl e
      | Inr st' \<Rightarrow> register_items r rest st')"

definition generate_route_schemas ::
  "PydanticSchemaRegistry \<Rightarrow> RouteInfo list \<Rightarrow> SchemaRegistry \<Rightarrow> emit_state result" where
  "generate_route_schemas r routes registry =
     register_items r (concat (map route_items routes))
       \<lparr>es_registry = registry, es_declarations = [], es_canonical = []\<rparr>"

text \<open>
  \<^verbatim>\<open>_generate_request_response_objects\<close>. The two tables are dicts of dicts in insertion
  order; \<open>lookup_or\<close> is \<^verbatim>\<open>setdefault\<close>'s read.
\<close>

definition lookup_or :: "'v \<Rightarrow> (string \<times> 'v) list \<Rightarrow> string \<Rightarrow> 'v" where
  "lookup_or dflt d k = (case map_of d k of Some v \<Rightarrow> v | None \<Rightarrow> dflt)"

definition setdefault :: "string \<Rightarrow> 'v \<Rightarrow> (string \<times> 'v) list \<Rightarrow> (string \<times> 'v) list" where
  "setdefault k dflt d = (case map_of d k of Some v \<Rightarrow> d | None \<Rightarrow> d @ [(k, dflt)])"

definition resolve_schema_name :: "(string \<times> string) list \<Rightarrow> string \<Rightarrow> string" where
  "resolve_schema_name canonical name = (case map_of canonical name of Some c \<Rightarrow> c | None \<Rightarrow> name)"

definition request_parts_of :: "(string \<times> string) list \<Rightarrow> RouteInfo \<Rightarrow> (string \<times> string) list" where
  "request_parts_of canonical route =
     (let names = generate_route_schema_names route in
      (case params_schema_name names of
         Some n \<Rightarrow> if n \<noteq> [] \<and> params_at ''path'' route \<noteq> []
                   then [(''params'', resolve_schema_name canonical n @ ''Schema'')] else []
       | None \<Rightarrow> []) @
      (case query_schema_name names of
         Some n \<Rightarrow> if n \<noteq> [] \<and> params_at ''query'' route \<noteq> []
                   then [(''query'', resolve_schema_name canonical n @ ''Schema'')] else []
       | None \<Rightarrow> []) @
      (case headers_schema_name names of
         Some n \<Rightarrow> if n \<noteq> [] \<and> params_at ''header'' route \<noteq> []
                   then [(''headers'', resolve_schema_name canonical n @ ''Schema'')] else []
       | None \<Rightarrow> []) @
      (case body_schema_name names of
         Some n \<Rightarrow> if n \<noteq> [] \<and> ri_request_body route \<noteq> PNone
                   then [(''body'', resolve_schema_name canonical n @ ''Schema'')] else []
       | None \<Rightarrow> []))"

type_synonym path_table = "(string \<times> (string \<times> (string \<times> string) list) list) list"

fun add_responses ::
  "(string \<times> string) list \<Rightarrow> (string result \<times> string) list \<Rightarrow> (string \<times> string) list \<Rightarrow>
   (string \<times> string) list result" where
  "add_responses canonical [] status_codes = Inr status_codes"
| "add_responses canonical ((Inl e, status_code) # rest) status_codes = Inl e"
| "add_responses canonical ((Inr name, status_code) # rest) status_codes =
     add_responses canonical rest
       (AList.update status_code (resolve_schema_name canonical name @ ''Schema'') status_codes)"

fun build_tables ::
  "(string \<times> string) list \<Rightarrow> RouteInfo list \<Rightarrow> path_table \<Rightarrow> path_table \<Rightarrow>
   (path_table \<times> path_table) result" where
  "build_tables canonical [] request_paths response_paths = Inr (request_paths, response_paths)"
| "build_tables canonical (route # routes) request_paths response_paths =
     (let methods_req = setdefault (ri_method route) [] (lookup_or [] request_paths (ri_path route));
          methods_req2 = (if request_parts_of canonical route \<noteq> []
                          then AList.update (ri_method route) (request_parts_of canonical route) methods_req
                          else methods_req);
          request_paths2 = AList.update (ri_path route) methods_req2 request_paths;
          methods_resp = setdefault (ri_method route) [] (lookup_or [] response_paths (ri_path route))
      in case add_responses canonical
                (map (\<lambda>(status_code, response_schema).
                        (generate_route_schema_name (ri_path route) (ri_method route)
                           (response_suffix status_code), status_code))
                   (filter (\<lambda>(status_code, response_schema). truthy response_schema)
                      (ri_responses route)))
                (lookup_or [] methods_resp (ri_method route)) of
           Inl e \<Rightarrow> Inl e
         | Inr status_codes \<Rightarrow>
             build_tables canonical routes request_paths2
               (AList.update (ri_path route)
                  (AList.update (ri_method route) status_codes methods_resp) response_paths))"

definition render_entries :: "(string \<times> string) list \<Rightarrow> string list" where
  "render_entries entries =
     map (\<lambda>(key, schema). ''            '' @ repr_str key @ '': '' @ schema @ '','') entries"

definition render_methods :: "(string \<times> (string \<times> string) list) list \<Rightarrow> string list" where
  "render_methods methods =
     concat (map (\<lambda>(m, entries).
                    [''        '' @ repr_str m @ '': {''] @ render_entries entries @ [''        },''])
               methods)"

definition render_request :: "path_table \<Rightarrow> string list" where
  "render_request request_paths =
     [''Request = {''] @
     concat (map (\<lambda>(p, methods).
                    if filter (\<lambda>(m, parts). parts \<noteq> []) methods = [] then []
                    else [''    '' @ repr_str p @ '': {''] @
                         render_methods (filter (\<lambda>(m, parts). parts \<noteq> []) methods) @
                         [''    },''])
               request_paths) @
     [''}'', []]"

definition render_response :: "path_table \<Rightarrow> string list" where
  "render_response response_paths =
     [''Response = {''] @
     concat (map (\<lambda>(p, methods).
                    if methods = [] then []
                    else [''    '' @ repr_str p @ '': {''] @ render_methods methods @ [''    },''])
               response_paths) @
     [''}'']"

definition generate_request_response_objects ::
  "RouteInfo list \<Rightarrow> (string \<times> string) list \<Rightarrow> string list result" where
  "generate_request_response_objects routes canonical =
     (case build_tables canonical routes [] [] of
        Inl e \<Rightarrow> Inl e
      | Inr (request_paths, response_paths) \<Rightarrow>
          Inr (render_request request_paths @ render_response response_paths))"

section \<open>to\_python.py: the code emitter\<close>

definition preamble :: "string list" where
  "preamble =
     [''# This file was automatically generated from OpenAPI schema'',
      ''# Do not manually edit this file'',
      ''from __future__ import annotations'',
      [],
      ''from typing import Any, Annotated, Literal, Optional, TypeAlias, Union'',
      ''from datetime import date, datetime'',
      ''from uuid import UUID'',
      [],
      ''from pydantic import BaseModel, ConfigDict, Field, RootModel, TypeAdapter'',
      ''from pydantic import AnyUrl, EmailStr'',
      ''from python_zod_openapi.all_of import all_of'',
      []]"

text \<open>The component schemas: \<^verbatim>\<open>components.get("schemas") or {}\<close>, an empty dict unless a dict.\<close>

definition component_schemas :: "(string \<times> pyval) list \<Rightarrow> (string \<times> pyval) list" where
  "component_schemas openapi =
     (case dget openapi ''components'' of
        PDict components \<Rightarrow>
          (case dget components ''schemas'' of
             PDict schemas \<Rightarrow> schemas
           | _ \<Rightarrow> [])
      | _ \<Rightarrow> [])"

text \<open>The loop over the topological order: emit, then pre-register the fingerprint.\<close>

fun emit_components ::
  "PydanticSchemaRegistry \<Rightarrow> (string \<times> pyval) list \<Rightarrow> string list \<Rightarrow> string list \<Rightarrow> SchemaRegistry \<Rightarrow>
   (string list \<times> SchemaRegistry) result" where
  "emit_components r schemas [] lines registry = Inr (lines, registry)"
| "emit_components r schemas (name # names) lines registry =
     (case dget schemas name of
        PNone \<Rightarrow> emit_components r schemas names lines registry
      | schema \<Rightarrow>
          (case emit_schema_definition r name schema of
             Inl e \<Rightarrow> Inl e
           | Inr ls \<Rightarrow>
               emit_components r schemas names (lines @ ls)
                 (pre_register_schema registry name (get_schema_fingerprint schema))))"

definition has_name :: "(string \<times> string) list \<Rightarrow> string \<Rightarrow> bool" where
  "has_name d k = (k \<in> set (map fst d))"

text \<open>The hoisting loop over the common schemas.\<close>

fun hoist_common ::
  "PydanticSchemaRegistry \<Rightarrow> CommonSchema list \<Rightarrow> string list \<Rightarrow> SchemaRegistry \<Rightarrow>
   (string list \<times> SchemaRegistry) result" where
  "hoist_common r [] lines registry = Inr (lines, registry)"
| "hoist_common r (common # rest) lines registry =
     (if has_name (fingerprint_to_name registry) (cs_fingerprint common)
      then hoist_common r rest lines registry
      else
        (case emit_schema_definition r (cs_name common) (cs_schema common) of
           Inl e \<Rightarrow> Inl e
         | Inr ls \<Rightarrow>
             hoist_common r rest (lines @ ls)
               (pre_register_schema registry (cs_name common) (cs_fingerprint common))))"

definition include_routes :: "(string \<times> pyval) list option \<Rightarrow> bool" where
  "include_routes options =
     (case options of
        Some opts \<Rightarrow> opts \<noteq> [] \<and> truthy (dget opts ''include_routes'')
      | None \<Rightarrow> False)"

text \<open>The body of \<^verbatim>\<open>if include_routes:\<close>.\<close>

definition emit_routes ::
  "PydanticSchemaRegistry \<Rightarrow> (string \<times> pyval) list \<Rightarrow> string list \<Rightarrow> SchemaRegistry \<Rightarrow>
   string list result" where
  "emit_routes r openapi lines registry =
     (let routes = parse_openapi_paths openapi in
      if routes = [] then Inr lines
      else
        (case collect_route_schemas routes of
           Inl e \<Rightarrow> Inl e
         | Inr route_schema_list \<Rightarrow>
             (case find_common_schemas route_schema_list 2 of
                Inl e \<Rightarrow> Inl e
              | Inr common_schemas \<Rightarrow>
                  (case (if common_schemas \<noteq> [] then
                           (case hoist_common r common_schemas
                                   (lines @ [''# Common Error Schemas (deduplicated)'']) registry of
                              Inl e \<Rightarrow> Inl e
                            | Inr (ls, reg) \<Rightarrow> Inr (ls @ [[]], reg))
                         else Inr (lines, registry)) of
                     Inl e \<Rightarrow> Inl e
                   | Inr (lines2, registry2) \<Rightarrow>
                       (case generate_route_schemas r routes registry2 of
                          Inl e \<Rightarrow> Inl e
                        | Inr st \<Rightarrow>
                            if es_declarations st \<noteq> [] then
                              (case generate_request_response_objects routes (es_canonical st) of
                                 Inl e \<Rightarrow> Inl e
                               | Inr tables \<Rightarrow>
                                   Inr (lines2 @ [''# Route Schemas''] @ es_declarations st @ [[]]
                                        @ tables))
                            else Inr lines2)))))"

text \<open>
  \<^verbatim>\<open>openapi_to_pydantic_code\<close>. Its first two arguments are what the source leaves
  implicit: the iteration order of the dependency sets and the process-wide format
  registry. \<^verbatim>\<open>custom_import_lines\<close> is a list (\<^verbatim>\<open>None\<close> counts as the empty list).
\<close>

definition openapi_to_pydantic_code ::
  "(string list \<Rightarrow> string list) \<Rightarrow> PydanticSchemaRegistry \<Rightarrow> (string \<times> pyval) list \<Rightarrow>
   string list \<Rightarrow> (string \<times> pyval) list option \<Rightarrow> string result" where
  "openapi_to_pydantic_code set_order r openapi custom_import_lines options =
     (case emit_components r (component_schemas openapi)
             (topological_sort_schemas set_order (component_schemas openapi))
             (preamble @ (if custom_import_lines \<noteq> [] then custom_import_lines @ [[]] else []))
             create_schema_registry of
        Inl e \<Rightarrow> Inl e
      | Inr (lines, registry) \<Rightarrow>
          if include_routes options then
            (case emit_routes r openapi lines registry of
               Inl e \<Rightarrow> Inl e
             | Inr lines2 \<Rightarrow> Inr (join [CHR 0x0A] lines2))
          else Inr (join [CHR 0x0A] lines))"

section \<open>Lemmas about the hoisting pass and the per-route registration\<close>

text \<open>
  \<open>occurrences fp nss\<close> are the collected schemas with fingerprint \<open>fp\<close>, in order;
  \<open>all_responses\<close> are the truthy response schemas of all routes, whatever their status.
\<close>

definition occurrences :: "string \<Rightarrow> NamedSchema list \<Rightarrow> NamedSchema list" where
  "occurrences fp nss = filter (\<lambda>i. get_schema_fingerprint (ns_schema i) = fp) nss"

definition all_responses :: "RouteInfo list \<Rightarrow> pyval list" where
  "all_responses routes =
     concat (map (\<lambda>route. map snd (filter (\<lambda>(status_code, s). truthy s) (ri_responses route)))
               routes)"

definition error_code_of :: "pyval \<Rightarrow> string option" where
  "error_code_of schema = (case extract_error_code schema of Inr c \<Rightarrow> c | Inl e \<Rightarrow> None)"

definition shared_name :: "NamedSchema \<Rightarrow> string" where
  "shared_name first =
     (case error_code_of (ns_schema first) of
        Some code \<Rightarrow> generate_common_error_schema_name code
      | None \<Rightarrow> ns_name first)"

lemma named_items_schemas:
  "named_items items = Inr nss \<Longrightarrow> map ns_schema nss = map snd items"
proof (induction items arbitrary: nss rule: named_items.induct)
  case 1
  then show ?case by simp
next
  case (2 e schema rest)
  then show ?case by simp
next
  case (3 name schema rest)
  then show ?case by (auto split: sum.splits)
qed

lemma named_items_names:
  "named_items items = Inr nss \<Longrightarrow> map (\<lambda>i. Inr (ns_name i)) nss = map fst items"
proof (induction items arbitrary: nss rule: named_items.induct)
  case 1
  then show ?case by simp
next
  case (2 e schema rest)
  then show ?case by simp
next
  case (3 name schema rest)
  then show ?case by (auto split: sum.splits)
qed

lemma collect_all_responses:
  assumes "collect_route_schemas routes = Inr nss"
  shows "map ns_schema nss = all_responses routes"
proof -
  have "map snd (concat (map response_items routes)) = all_responses routes"
    by (induction routes) (auto simp: all_responses_def response_items_def case_prod_beta comp_def)
  with named_items_schemas[OF assms[unfolded collect_route_schemas_def]] show ?thesis by simp
qed

lemma generate_route_schema_name_nonempty:
  "generate_route_schema_name p m suffix = Inr n \<Longrightarrow> n \<noteq> []"
  by (auto simp: generate_route_schema_name_def split: list.splits)

lemma collect_names_nonempty:
  assumes "collect_route_schemas routes = Inr nss" "i \<in> set nss"
  shows "ns_name i \<noteq> []"
proof -
  from named_items_names[OF assms(1)[unfolded collect_route_schemas_def]] assms(2)
  have "Inr (ns_name i) \<in> fst ` set (concat (map response_items routes))"
    by (metis (no_types, lifting) image_eqI list.set_map)
  then obtain route :: RouteInfo and sc where
    "generate_route_schema_name (ri_path route) (ri_method route) (response_suffix sc) = Inr (ns_name i)"
    by (force simp: response_items_def)
  then show ?thesis by (rule generate_route_schema_name_nonempty)
qed

text \<open>The entry that the grouping loop holds for a fingerprint.\<close>

definition entry_of :: "NamedSchema list \<Rightarrow> fp_entry option" where
  "entry_of occ =
     (case occ of
        [] \<Rightarrow> None
      | first # rest \<Rightarrow>
          Some \<lparr>fe_schema = ns_schema first, fe_names = map ns_name (first # rest),
                fe_error_code = error_code_of (ns_schema first)\<rparr>)"

lemma group_fingerprints_spec:
  "group_fingerprints items acc = Inr res \<Longrightarrow> distinct (map fst acc) \<Longrightarrow>
   distinct (map fst res) \<and>
   (\<forall>fp. map_of res fp =
      (case map_of acc fp of
         Some e \<Rightarrow> Some (e\<lparr>fe_names := fe_names e @ map ns_name (occurrences fp items)\<rparr>)
       | None \<Rightarrow> entry_of (occurrences fp items)))"
proof (induction items arbitrary: acc res)
  case Nil
  then show ?case by (auto simp: occurrences_def entry_of_def split: option.splits)
next
  case (Cons i items)
  let ?fp = "get_schema_fingerprint (ns_schema i)"
  show ?case
  proof (cases "map_of acc ?fp")
    case (Some existing)
    let ?acc' = "AList.update ?fp (existing\<lparr>fe_names := fe_names existing @ [ns_name i]\<rparr>) acc"
    from Cons.prems(1) Some have g: "group_fingerprints items ?acc' = Inr res"
      by (simp add: Let_def)
    have d: "distinct (map fst ?acc')" using Cons.prems(2) by (rule distinct_update)
    from Cons.IH[OF g d] have dres: "distinct (map fst res)"
      and m: "\<And>fp. map_of res fp =
      (case map_of ?acc' fp of
         Some e \<Rightarrow> Some (e\<lparr>fe_names := fe_names e @ map ns_name (occurrences fp items)\<rparr>)
       | None \<Rightarrow> entry_of (occurrences fp items))" by auto
    have "map_of res fp =
      (case map_of acc fp of
         Some e \<Rightarrow> Some (e\<lparr>fe_names := fe_names e @ map ns_name (occurrences fp (i # items))\<rparr>)
       | None \<Rightarrow> entry_of (occurrences fp (i # items)))" for fp
    proof (cases "fp = ?fp")
      case True
      have occ: "occurrences ?fp (i # items) = i # occurrences ?fp items"
        by (simp add: occurrences_def)
      show ?thesis unfolding True occ using Some by (simp add: m update_conv')
    next
      case False
      then have occ: "occurrences fp (i # items) = occurrences fp items"
        by (auto simp: occurrences_def)
      show ?thesis unfolding occ using False by (simp add: m update_conv')
    qed
    with dres show ?thesis by simp
  next
    case None
    from Cons.prems(1) None obtain code where code: "extract_error_code (ns_schema i) = Inr code"
      by (cases "extract_error_code (ns_schema i)") (auto simp: Let_def)
    let ?acc' = "AList.update ?fp
                    \<lparr>fe_schema = ns_schema i, fe_names = [ns_name i], fe_error_code = code\<rparr> acc"
    from Cons.prems(1) None code have g: "group_fingerprints items ?acc' = Inr res"
      by (simp add: Let_def)
    have d: "distinct (map fst ?acc')" using Cons.prems(2) by (rule distinct_update)
    from Cons.IH[OF g d] have dres: "distinct (map fst res)"
      and m: "\<And>fp. map_of res fp =
      (case map_of ?acc' fp of
         Some e \<Rightarrow> Some (e\<lparr>fe_names := fe_names e @ map ns_name (occurrences fp items)\<rparr>)
       | None \<Rightarrow> entry_of (occurrences fp items))" by auto
    have "map_of res fp =
      (case map_of acc fp of
         Some e \<Rightarrow> Some (e\<lparr>fe_names := fe_names e @ map ns_name (occurrences fp (i # items))\<rparr>)
       | None \<Rightarrow> entry_of (occurrences fp (i # items)))" for fp
    proof (cases "fp = ?fp")
      case True
      have occ: "occurrences ?fp (i # items) = i # occurrences ?fp items"
        by (simp add: occurrences_def)
      show ?thesis unfolding True occ using None code
        by (simp add: m update_conv' entry_of_def error_code_of_def)
    next
      case False
      then have occ: "occurrences fp (i # items) = occurrences fp items"
        by (auto simp: occurrences_def)
      show ?thesis unfolding occ using False by (simp add: m update_conv')
    qed
    with dres show ?thesis by simp
  qed
qed

lemma common_of_entry_fields:
  "entry_of occ = Some entry \<Longrightarrow>
   \<exists>first rest. occ = first # rest
     \<and> cs_fingerprint (common_of_entry fp entry) = fp
     \<and> cs_schema (common_of_entry fp entry) = ns_schema first
     \<and> cs_count (common_of_entry fp entry) = length occ
     \<and> cs_name (common_of_entry fp entry) = shared_name first"
  by (cases occ) (auto simp: entry_of_def common_of_entry_def shared_name_def split: option.splits)

lemma distinct_map_sort_key:
  "distinct (map f xs) \<Longrightarrow> distinct (map f (sort_key g xs))"
  by (simp add: distinct_map)

lemma find_common_schemas_spec:
  assumes "find_common_schemas nss min_count = Inr cs"
  shows "distinct (map cs_fingerprint cs)"
    and "(\<exists>c \<in> set cs. cs_fingerprint c = fp) = (0 < length (occurrences fp nss) \<and> min_count \<le> length (occurrences fp nss))"
    and "c \<in> set cs \<Longrightarrow>
         \<exists>first rest. occurrences (cs_fingerprint c) nss = first # rest
           \<and> cs_schema c = ns_schema first
           \<and> cs_count c = length (first # rest)
           \<and> cs_name c = shared_name first"
proof -
  from assms obtain res where g: "group_fingerprints nss [] = Inr res"
    and cs: "cs = sort_key (\<lambda>c. - int (cs_count c))
                 (map (\<lambda>(fingerprint, entry). common_of_entry fingerprint entry)
                    (filter (\<lambda>(fingerprint, entry). \<not> length (fe_names entry) < min_count) res))"
    by (auto simp: find_common_schemas_def split: sum.splits)
  from group_fingerprints_spec[OF g] have dres: "distinct (map fst res)"
    and m: "\<And>fp. map_of res fp = entry_of (occurrences fp nss)" by auto
  let ?F = "filter (\<lambda>(fingerprint, entry). \<not> length (fe_names entry) < min_count) res"
  let ?M = "map (\<lambda>(fingerprint, entry). common_of_entry fingerprint entry) ?F"
  have fpM: "map cs_fingerprint ?M = map fst ?F"
    by (auto simp: common_of_entry_def case_prod_beta)
  have dF: "distinct (map fst ?F)" using dres by (rule distinct_map_filter)
  have dM: "distinct (map cs_fingerprint ?M)" unfolding fpM by (rule dF)
  have setcs: "set cs = set ?M" unfolding cs by simp
  show "distinct (map cs_fingerprint cs)"
    unfolding cs by (rule distinct_map_sort_key[OF dM])
  have mem: "c \<in> set cs \<longleftrightarrow>
      (\<exists>fp entry. entry_of (occurrences fp nss) = Some entry
         \<and> \<not> length (fe_names entry) < min_count \<and> c = common_of_entry fp entry)" for c
  proof -
    have "c \<in> set cs \<longleftrightarrow> (\<exists>fp entry. (fp, entry) \<in> set res
         \<and> \<not> length (fe_names entry) < min_count \<and> c = common_of_entry fp entry)"
      unfolding setcs by auto
    also have "\<dots> \<longleftrightarrow> (\<exists>fp entry. map_of res fp = Some entry
         \<and> \<not> length (fe_names entry) < min_count \<and> c = common_of_entry fp entry)"
      using dres by (metis map_of_SomeD map_of_eq_Some_iff)
    finally show ?thesis by (simp add: m)
  qed
  have names_len: "length (fe_names entry) = length occ" if "entry_of occ = Some entry" for occ entry
    using that by (cases occ) (auto simp: entry_of_def)
  show "(\<exists>c \<in> set cs. cs_fingerprint c = fp) = (0 < length (occurrences fp nss) \<and> min_count \<le> length (occurrences fp nss))"
  proof
    assume "\<exists>c \<in> set cs. cs_fingerprint c = fp"
    then obtain c where c: "c \<in> set cs" "cs_fingerprint c = fp" by auto
    from c(1) obtain fp' entry where e: "entry_of (occurrences fp' nss) = Some entry"
      "\<not> length (fe_names entry) < min_count" "c = common_of_entry fp' entry"
      using mem by auto
    from e(3) c(2) have "fp' = fp" by (simp add: common_of_entry_def)
    with e names_len[OF e(1)] show "0 < length (occurrences fp nss) \<and> min_count \<le> length (occurrences fp nss)"
      by (cases "occurrences fp nss") (auto simp: entry_of_def)
  next
    assume a: "0 < length (occurrences fp nss) \<and> min_count \<le> length (occurrences fp nss)"
    then obtain entry where e: "entry_of (occurrences fp nss) = Some entry"
      by (cases "occurrences fp nss") (auto simp: entry_of_def)
    have "\<not> length (fe_names entry) < min_count" using a names_len[OF e] by simp
    with e have "common_of_entry fp entry \<in> set cs" unfolding mem by blast
    then show "\<exists>c \<in> set cs. cs_fingerprint c = fp"
      by (auto simp: common_of_entry_def intro!: bexI[of _ "common_of_entry fp entry"])
  qed
  show "\<exists>first rest. occurrences (cs_fingerprint c) nss = first # rest
           \<and> cs_schema c = ns_schema first
           \<and> cs_count c = length (first # rest)
           \<and> cs_name c = shared_name first" if "c \<in> set cs"
  proof -
    from that obtain fp' entry where e: "entry_of (occurrences fp' nss) = Some entry"
      "c = common_of_entry fp' entry"
      using mem by auto
    from common_of_entry_fields[OF e(1), of fp'] show ?thesis unfolding e(2) by auto
  qed
qed

lemma has_name_map_of: "has_name d k = (map_of d k \<noteq> None)"
  by (simp add: has_name_def map_of_eq_None_iff)

lemma has_name_pre_register:
  "has_name (fingerprint_to_name (pre_register_schema registry name fp)) fp' =
     (fp' = fp \<or> has_name (fingerprint_to_name registry) fp')"
  by (auto simp: has_name_map_of pre_register_schema_def update_conv')

text \<open>
  The hoisting loop emits one declaration for every common schema whose fingerprint is
  not yet registered, and registers it under the shared name; the other entries of the
  registry are kept.
\<close>

lemma hoist_common_spec:
  "hoist_common r cs lines registry = Inr (lines', registry') \<Longrightarrow>
   distinct (map cs_fingerprint cs) \<Longrightarrow>
   (\<exists>dls. map (\<lambda>c. emit_schema_definition r (cs_name c) (cs_schema c))
             (filter (\<lambda>c. \<not> has_name (fingerprint_to_name registry) (cs_fingerprint c)) cs)
           = map Inr dls
        \<and> lines' = lines @ concat dls)
   \<and> (\<forall>fp. map_of (fingerprint_to_name registry') fp =
         (if has_name (fingerprint_to_name registry) fp then map_of (fingerprint_to_name registry) fp
          else map_of (map (\<lambda>c. (cs_fingerprint c, cs_name c)) cs) fp))"
proof (induction cs arbitrary: lines registry)
  case Nil
  then show ?case by (auto simp: has_name_map_of)
next
  case (Cons c cs)
  from Cons.prems(2) have dcs: "distinct (map cs_fingerprint cs)"
    and fresh: "cs_fingerprint c \<notin> cs_fingerprint ` set cs" by auto
  show ?case
  proof (cases "has_name (fingerprint_to_name registry) (cs_fingerprint c)")
    case True
    with Cons.prems(1) have h: "hoist_common r cs lines registry = Inr (lines', registry')" by simp
    from Cons.IH[OF h dcs] True show ?thesis by auto
  next
    case False
    with Cons.prems(1) obtain ls where e: "emit_schema_definition r (cs_name c) (cs_schema c) = Inr ls"
      and h: "hoist_common r cs (lines @ ls)
                (pre_register_schema registry (cs_name c) (cs_fingerprint c)) = Inr (lines', registry')"
      by (auto split: sum.splits)
    let ?reg1 = "pre_register_schema registry (cs_name c) (cs_fingerprint c)"
    from Cons.IH[OF h dcs] obtain dls where
      d: "map (\<lambda>c. emit_schema_definition r (cs_name c) (cs_schema c))
             (filter (\<lambda>c. \<not> has_name (fingerprint_to_name ?reg1) (cs_fingerprint c)) cs)
           = map Inr dls" and l: "lines' = (lines @ ls) @ concat dls"
      and m: "\<And>fp. map_of (fingerprint_to_name registry') fp =
         (if has_name (fingerprint_to_name ?reg1) fp then map_of (fingerprint_to_name ?reg1) fp
          else map_of (map (\<lambda>c. (cs_fingerprint c, cs_name c)) cs) fp)"
      by auto
    have f: "filter (\<lambda>c. \<not> has_name (fingerprint_to_name ?reg1) (cs_fingerprint c)) cs
           = filter (\<lambda>c. \<not> has_name (fingerprint_to_name registry) (cs_fingerprint c)) cs"
    proof (rule filter_cong[OF refl])
      fix x assume "x \<in> set cs"
      with fresh have "cs_fingerprint x \<noteq> cs_fingerprint c" by (metis image_eqI)
      then show "(\<not> has_name (fingerprint_to_name ?reg1) (cs_fingerprint x))
          = (\<not> has_name (fingerprint_to_name registry) (cs_fingerprint x))"
        by (simp add: has_name_pre_register)
    qed
    have p1: "map (\<lambda>c. emit_schema_definition r (cs_name c) (cs_schema c))
             (filter (\<lambda>c. \<not> has_name (fingerprint_to_name registry) (cs_fingerprint c)) (c # cs))
           = map Inr (ls # dls) \<and> lines' = lines @ concat (ls # dls)"
      using False e d l unfolding f by simp
    have p2: "map_of (fingerprint_to_name registry') fp =
         (if has_name (fingerprint_to_name registry) fp then map_of (fingerprint_to_name registry) fp
          else map_of (map (\<lambda>c. (cs_fingerprint c, cs_name c)) (c # cs)) fp)" for fp
      using False
      by (auto simp: m has_name_pre_register pre_register_schema_def update_conv' has_name_map_of)
    from p1 p2 show ?thesis by blast
  qed
qed

text \<open>
  A registration whose fingerprint is mapped to a non-empty name leaves the registry as
  it is and emits the alias pair, or nothing when the name is the canonical name itself.
\<close>

lemma register_and_emit_existing:
  assumes "map_of (fingerprint_to_name (es_registry st)) (get_schema_fingerprint schema) = Some n"
    and "n \<noteq> []"
  shows "register_and_emit r st name schema =
     Inr \<lparr>es_registry = es_registry st,
          es_declarations = es_declarations st
             @ (if name \<noteq> n then emit_schema_alias name n @ [[]] else []),
          es_canonical = AList.update name n (es_canonical st)\<rparr>"
  using assms by (simp add: register_and_emit_def register_schema_existing)

lemma register_and_emit_fresh:
  assumes "map_of (fingerprint_to_name (es_registry st)) (get_schema_fingerprint schema) = None"
    and "emit_schema_definition r name schema = Inr ls"
  shows "register_and_emit r st name schema =
     Inr \<lparr>es_registry = pre_register_schema (es_registry st) name (get_schema_fingerprint schema),
          es_declarations = es_declarations st @ ls,
          es_canonical = AList.update name name (es_canonical st)\<rparr>"
  using assms by (simp add: register_and_emit_def register_schema_fresh pre_register_schema_def)

lemma register_schema_keeps:
  assumes "map_of (fingerprint_to_name registry) fp = Some n" "n \<noteq> []"
  shows "map_of (fingerprint_to_name (snd (register_schema registry name schema))) fp = Some n"
  using assms
  by (auto simp: register_schema_def Let_def update_conv' split: option.splits)

lemma register_and_emit_keeps:
  assumes "register_and_emit r st name schema = Inr st'"
    and "map_of (fingerprint_to_name (es_registry st)) fp = Some n" "n \<noteq> []"
  shows "map_of (fingerprint_to_name (es_registry st')) fp = Some n"
proof -
  from assms(1) have "es_registry st' = snd (register_schema (es_registry st) name schema)"
    by (auto simp: register_and_emit_def Let_def split: if_splits sum.splits)
  with register_schema_keeps[OF assms(2,3)] show ?thesis by simp
qed

lemma register_items_keeps:
  "register_items r items st = Inr st' \<Longrightarrow>
   map_of (fingerprint_to_name (es_registry st)) fp = Some n \<Longrightarrow> n \<noteq> [] \<Longrightarrow>
   map_of (fingerprint_to_name (es_registry st')) fp = Some n"
proof (induction r items st rule: register_items.induct)
  case (1 r st)
  then show ?case by simp
next
  case (2 r e schema rest st)
  then show ?case by simp
next
  case (3 r schema_name schema rest st)
  from "3.prems"(1) obtain st1 where s1: "register_and_emit r st schema_name schema = Inr st1"
    and rest: "register_items r rest st1 = Inr st'"
    by (auto split: sum.splits)
  from register_and_emit_keeps[OF s1 "3.prems"(2,3)]
  have "map_of (fingerprint_to_name (es_registry st1)) fp = Some n" .
  from "3.IH"[OF s1 rest this "3.prems"(3)] show ?case .
qed

text \<open>
  The dedup law: of two schemas with equal fingerprints and different names, registered
  one after the other on a registry that does not know the fingerprint, the first (with a
  non-empty name) gets the full declaration and the second the alias pair.
\<close>

lemma dedup_law:
  assumes fp: "get_schema_fingerprint schema1 = get_schema_fingerprint schema2"
    and fresh: "map_of (fingerprint_to_name (es_registry st)) (get_schema_fingerprint schema1) = None"
    and names: "name1 \<noteq> []" "name2 \<noteq> name1"
    and emit: "emit_schema_definition r name1 schema1 = Inr ls"
  shows "\<exists>st1 st2. register_and_emit r st name1 schema1 = Inr st1
       \<and> es_declarations st1 = es_declarations st @ ls
       \<and> register_and_emit r st1 name2 schema2 = Inr st2
       \<and> es_declarations st2 = es_declarations st1 @ emit_schema_alias name2 name1 @ [[]]
       \<and> es_registry st2 = es_registry st1"
proof -
  let ?st1 = "\<lparr>es_registry = pre_register_schema (es_registry st) name1 (get_schema_fingerprint schema1),
          es_declarations = es_declarations st @ ls,
          es_canonical = AList.update name1 name1 (es_canonical st)\<rparr>"
  have s1: "register_and_emit r st name1 schema1 = Inr ?st1"
    by (rule register_and_emit_fresh[OF fresh emit])
  have m: "map_of (fingerprint_to_name (es_registry ?st1)) (get_schema_fingerprint schema2) = Some name1"
    by (simp add: fp[symmetric] pre_register_schema_overwrites)
  from register_and_emit_existing[OF m names(1), of r name2] names(2) s1
  show ?thesis by auto
qed

lemma shared_name_nonempty: "ns_name first \<noteq> [] \<Longrightarrow> shared_name first \<noteq> []"
  by (simp add: shared_name_def generate_common_error_schema_name_def split: option.splits)

lemma map_of_common:
  assumes "distinct (map cs_fingerprint cs)" "c \<in> set cs"
  shows "map_of (map (\<lambda>c. (cs_fingerprint c, cs_name c)) cs) (cs_fingerprint c) = Some (cs_name c)"
proof -
  have "distinct (map fst (map (\<lambda>c. (cs_fingerprint c, cs_name c)) cs))"
    using assms(1) by (simp add: comp_def)
  moreover have "(cs_fingerprint c, cs_name c) \<in> set (map (\<lambda>c. (cs_fingerprint c, cs_name c)) cs)"
    using assms(2) by force
  ultimately show ?thesis by (rule map_of_is_SomeI)
qed

section \<open>Lemmas about the route extractor\<close>

text \<open>
  \<open>known_keys_only\<close> removes from every path item of a document all keys other than
  \<^verbatim>\<open>parameters\<close> and the seven method names.
\<close>

definition known_keys_only :: "(string \<times> pyval) list \<Rightarrow> (string \<times> pyval) list" where
  "known_keys_only openapi =
     (case dget openapi ''paths'' of
        PDict paths \<Rightarrow>
          [(''paths'', PDict (map (\<lambda>(p, path_item_obj).
              (p, case path_item_obj of
                    PDict path_item \<Rightarrow>
                      PDict (filter (\<lambda>(k, v). k \<in> set [''parameters'', ''get'', ''post'', ''put'',
                                                     ''patch'', ''delete'', ''head'', ''options''])
                               path_item)
                  | _ \<Rightarrow> path_item_obj)) paths))]
      | _ \<Rightarrow> openapi)"

lemma map_of_filter_keys:
  "map_of (filter (\<lambda>(k, v). P k) d) k = (if P k then map_of d k else None)"
  by (induction d) auto

lemma dget_filter_keys: "P k \<Longrightarrow> dget (filter (\<lambda>(k, v). P k) d) k = dget d k"
  by (simp add: dget_def map_of_filter_keys)

lemma to_upper_method_known: "m \<in> set http_methods \<Longrightarrow> to_upper_method m = str_upper m"
  by (auto simp: http_methods_def to_upper_method_def str_upper_def upper_c_def)

lemma routes_of_path_item_known_keys:
  "routes_of_path_item p (PDict (filter (\<lambda>(k, v). k \<in> set [''parameters'', ''get'', ''post'', ''put'',
                                                     ''patch'', ''delete'', ''head'', ''options''])
                               path_item))
   = routes_of_path_item p (PDict path_item)"
proof -
  let ?P = "\<lambda>k. k \<in> set [''parameters'', ''get'', ''post'', ''put'',
                                                     ''patch'', ''delete'', ''head'', ''options'']"
  let ?f = "filter (\<lambda>(k, v). ?P k) path_item"
  have m: "dget ?f m = dget path_item m" if "m \<in> set http_methods" for m
    using that by (intro dget_filter_keys) (auto simp: http_methods_def)
  have q: "dget ?f ''parameters'' = dget path_item ''parameters''"
    by (intro dget_filter_keys) simp
  have "(case dget ?f m of
           PDict operation \<Rightarrow> [route_of_operation p ?f m operation]
         | _ \<Rightarrow> [])
      = (case dget path_item m of
           PDict operation \<Rightarrow> [route_of_operation p path_item m operation]
         | _ \<Rightarrow> [])" if "m \<in> set http_methods" for m
    unfolding m[OF that] route_of_operation_def q by simp
  then show ?thesis
    unfolding routes_of_path_item_def pyval.case by (intro arg_cong[where f=concat] map_cong) auto
qed

lemma parse_known_keys_only: "parse_openapi_paths (known_keys_only openapi) = parse_openapi_paths openapi"
proof (cases "dget openapi ''paths''")
  case (PDict paths)
  have d: "dget [(''paths'', PDict xs)] ''paths'' = PDict xs" for xs by (simp add: dget_def)
  have "routes_of_path_item p (case item of
                    PDict path_item \<Rightarrow>
                      PDict (filter (\<lambda>(k, v). k \<in> set [''parameters'', ''get'', ''post'', ''put'',
                                                     ''patch'', ''delete'', ''head'', ''options''])
                               path_item)
                  | _ \<Rightarrow> item) = routes_of_path_item p item" for p item
    by (cases item) (simp_all add: routes_of_path_item_known_keys del: set_simps)
  then show ?thesis
    by (simp add: known_keys_only_def PDict parse_openapi_paths_def d comp_def case_prod_unfold del: set_simps)
qed (simp_all add: known_keys_only_def)

lemma routes_of_path_item_pairs:
  "map (\<lambda>route. (ri_path route, ri_method route)) (routes_of_path_item p (PDict path_item))
   = map (\<lambda>m. (p, str_upper m)) (filter (\<lambda>m. is_dict (dget path_item m)) http_methods)"
proof -
  have "map (\<lambda>route. (ri_path route, ri_method route))
          (concat (map (\<lambda>m. case dget path_item m of
                         PDict operation \<Rightarrow> [route_of_operation p path_item m operation]
                       | _ \<Rightarrow> []) ms))
      = map (\<lambda>m. (p, str_upper m)) (filter (\<lambda>m. is_dict (dget path_item m)) ms)"
    if "set ms \<subseteq> set http_methods" for ms
    using that
  proof (induction ms)
    case Nil
    then show ?case by simp
  next
    case (Cons m ms)
    then have "to_upper_method m = str_upper m" by (intro to_upper_method_known) simp
    with Cons show ?case
      by (cases "dget path_item m") (simp_all add: route_of_operation_def)
  qed
  then show ?thesis by (simp add: routes_of_path_item_def)
qed

section \<open>Lemmas about sequences of registrations\<close>

text \<open>A sequence of \<^verbatim>\<open>register_schema\<close> calls on one registry, with the result of each call.\<close>

fun register_schema_calls ::
  "SchemaRegistry \<Rightarrow> (string \<times> pyval) list \<Rightarrow> RegisterSchemaResult list \<times> SchemaRegistry" where
  "register_schema_calls registry [] = ([], registry)"
| "register_schema_calls registry ((name, schema) # calls) =
     (fst (register_schema registry name schema)
        # fst (register_schema_calls (snd (register_schema registry name schema)) calls),
      snd (register_schema_calls (snd (register_schema registry name schema)) calls))"

lemma register_schema_first:
  assumes "name \<noteq> []"
    and "map_of (fingerprint_to_name registry) (get_schema_fingerprint schema) = None
       \<or> map_of (fingerprint_to_name registry) (get_schema_fingerprint schema) = Some []"
  shows "register_schema registry name schema =
     (\<lparr>is_new = True, canonical_name = name\<rparr>,
      pre_register_schema registry name (get_schema_fingerprint schema))"
  using assms(2) by (auto simp: register_schema_def pre_register_schema_def)

lemma register_schema_calls_existing:
  "map_of (fingerprint_to_name registry) fp = Some n \<Longrightarrow> n \<noteq> [] \<Longrightarrow> i < length calls \<Longrightarrow>
   get_schema_fingerprint (snd (calls ! i)) = fp \<Longrightarrow>
   fst (register_schema_calls registry calls) ! i = \<lparr>is_new = False, canonical_name = n\<rparr>"
proof (induction calls arbitrary: registry i)
  case Nil
  then show ?case by simp
next
  case (Cons call calls)
  obtain name schema where call: "call = (name, schema)" by (cases call)
  show ?case
  proof (cases i)
    case 0
    with Cons.prems call show ?thesis by (simp add: register_schema_existing)
  next
    case (Suc j)
    from register_schema_keeps[OF Cons.prems(1,2)]
    have k: "map_of (fingerprint_to_name (snd (register_schema registry name schema))) fp = Some n" .
    from Cons.prems(3,4) Suc have "j < length calls" "get_schema_fingerprint (snd (calls ! j)) = fp"
      by simp_all
    from Cons.IH[OF k Cons.prems(2) this] show ?thesis by (simp add: call Suc)
  qed
qed

lemma register_and_emit_first:
  assumes "name \<noteq> []"
    and "map_of (fingerprint_to_name (es_registry st)) (get_schema_fingerprint schema) = None
       \<or> map_of (fingerprint_to_name (es_registry st)) (get_schema_fingerprint schema) = Some []"
    and "emit_schema_definition r name schema = Inr ls"
  shows "register_and_emit r st name schema =
     Inr \<lparr>es_registry = pre_register_schema (es_registry st) name (get_schema_fingerprint schema),
          es_declarations = es_declarations st @ ls,
          es_canonical = AList.update name name (es_canonical st)\<rparr>"
  using assms(3) by (simp add: register_and_emit_def register_schema_first[OF assms(1,2)])

text \<open>
  \<open>value_at v keys\<close> follows a path of keys through nested dicts: the value found at the end
  of the path, if every value on the way is a dict that has the next key.
\<close>

fun value_at :: "pyval \<Rightarrow> string list \<Rightarrow> pyval option" where
  "value_at v [] = Some v"
| "value_at (PDict d) (k # ks) = (case map_of d k of Some v \<Rightarrow> value_at v ks | None \<Rightarrow> None)"
| "value_at v (k # ks) = None"

lemma value_at_step:
  "dget d k = PDict e \<Longrightarrow> value_at (PDict d) (k # ks) = value_at (PDict e) ks"
  by (cases "map_of d k") (auto simp: dget_def)

lemma value_at_no_dict:
  "\<not> is_dict (dget d k) \<Longrightarrow> value_at (PDict d) (k # k' # ks) = None"
  by (cases "map_of d k"; cases "dget d k") (auto simp: dget_def)

lemma value_at_last: "value_at (PDict d) [k] = map_of d k"
  by (cases "map_of d k") auto

lemma extract_error_code_step:
  "extract_error_code (PDict s) =
     (case dget s ''properties'' of
        PDict props \<Rightarrow>
          (case dget props ''error'' of
             PDict error_obj \<Rightarrow>
               (case dget error_obj ''properties'' of
                  PDict error_props \<Rightarrow>
                    (case dget error_props ''code'' of
                       PDict code_schema \<Rightarrow>
                         (case dget code_schema ''enum'' of
                            PList [code] \<Rightarrow> Inr (Some (str_of code))
                          | _ \<Rightarrow> Inr None)
                     | _ \<Rightarrow> Inr None)
                | _ \<Rightarrow> Inr None)
           | _ \<Rightarrow> Inr None)
      | _ \<Rightarrow> Inr None)"
  by (simp add: extract_error_code_def)

lemma error_code_of_value_at:
  "error_code_of schema =
     (case value_at schema [''properties'', ''error'', ''properties'', ''code'', ''enum''] of
        Some (PList [code]) \<Rightarrow> Some (str_of code)
      | _ \<Rightarrow> None)"
proof (cases schema)
  case (PDict s)
  show ?thesis
  proof (cases "dget s ''properties''")
    case p: (PDict props)
    show ?thesis
    proof (cases "dget props ''error''")
      case e: (PDict error_obj)
      show ?thesis
      proof (cases "dget error_obj ''properties''")
        case ep: (PDict error_props)
        show ?thesis
        proof (cases "dget error_props ''code''")
          case c: (PDict code_schema)
          have v: "value_at schema [''properties'', ''error'', ''properties'', ''code'', ''enum'']
              = map_of code_schema ''enum''"
            unfolding PDict value_at_step[OF p] value_at_step[OF e] value_at_step[OF ep]
              value_at_step[OF c] by (rule value_at_last)
          have x: "error_code_of schema =
              (case dget code_schema ''enum'' of PList [code] \<Rightarrow> Some (str_of code) | _ \<Rightarrow> None)"
            unfolding error_code_of_def PDict extract_error_code_step p e ep c pyval.case
            by (simp split: pyval.splits list.splits)
          show ?thesis
            unfolding v x by (cases "map_of code_schema ''enum''") (simp_all add: dget_def)
        qed (simp_all add: error_code_of_def extract_error_code_step PDict value_at_step[OF p]
               value_at_step[OF e] value_at_step[OF ep] p e ep value_at_no_dict
               del: value_at.simps)
      qed (simp_all add: error_code_of_def extract_error_code_step PDict value_at_step[OF p]
             value_at_step[OF e] p e value_at_no_dict del: value_at.simps)
    qed (simp_all add: error_code_of_def extract_error_code_step PDict value_at_step[OF p] p
           value_at_no_dict del: value_at.simps)
  qed (simp_all add: error_code_of_def extract_error_code_step PDict value_at_no_dict
         del: value_at.simps)
qed (simp_all add: error_code_of_def extract_error_code_def)

lemma shared_name_value_at:
  "shared_name first =
     (case value_at (ns_schema first) [''properties'', ''error'', ''properties'', ''code'', ''enum''] of
        Some (PList [code]) \<Rightarrow> concat (map capitalize (split (str_of code) ''_'')) @ ''Error''
      | _ \<Rightarrow> ns_name first)"
  unfolding shared_name_def error_code_of_value_at
  by (simp add: generate_common_error_schema_name_def error_code_to_pascal_case_def
        split: option.splits pyval.splits list.splits)

text \<open>
  Two routes whose \<^verbatim>\<open>404\<close> responses are the same error schema with the single code
  \<^verbatim>\<open>NOT_FOUND\<close>: one shared declaration named from the code, and an alias pair for each of
  the two routes.
\<close>

lemma hoisting_error_code_example:
  "emit_routes new_registry
     [(''paths'', PDict [(''/a'', PDict
        [(''get'', PDict [(''responses'', PDict [(''404'', PDict [(''content'', PDict
          [(''application/json'', PDict [(''schema'',
        PDict [(''type'', PStr ''object''),
          (''properties'', PDict [(''error'', PDict [(''type'', PStr ''object''),
             (''properties'', PDict
                [(''code'', PDict [(''type'', PStr ''string''), (''enum'', PList [PStr ''NOT_FOUND''])]),
                 (''message'', PDict [(''type'', PStr ''string'')])]),
             (''required'', PList [PStr ''code'', PStr ''message''])])]),
          (''required'', PList [PStr ''error''])])])])])])]),
         (''post'', PDict [(''responses'', PDict [(''404'', PDict [(''content'', PDict
          [(''application/json'', PDict [(''schema'',
        PDict [(''type'', PStr ''object''),
          (''properties'', PDict [(''error'', PDict [(''type'', PStr ''object''),
             (''properties'', PDict
                [(''code'', PDict [(''type'', PStr ''string''), (''enum'', PList [PStr ''NOT_FOUND''])]),
                 (''message'', PDict [(''type'', PStr ''string'')])]),
             (''required'', PList [PStr ''code'', PStr ''message''])])]),
          (''required'', PList [PStr ''error''])])])])])])])])])]
     [] create_schema_registry = Inr
      [''# Common Error Schemas (deduplicated)'',
       ''class NotFoundErrorError(BaseModel):'',
       ''    code: Literal['' @ sq @ ''NOT_FOUND'' @ sq @ '']'',
       ''    message: Annotated[str, Field(strict=True)]'',
       ''NotFoundErrorError.model_rebuild()'',
       ''NotFoundErrorErrorSchema = TypeAdapter(NotFoundErrorError)'', [],
       ''class NotFoundError(BaseModel):'',
       ''    error: NotFoundErrorError'',
       ''NotFoundError.model_rebuild()'',
       ''NotFoundErrorSchema = TypeAdapter(NotFoundError)'', [], [],
       ''# Route Schemas'',
       ''GetA404ErrorResponse = NotFoundError'',
       ''GetA404ErrorResponseSchema = NotFoundErrorSchema'', [],
       ''PostA404ErrorResponse = NotFoundError'',
       ''PostA404ErrorResponseSchema = NotFoundErrorSchema'', [], [],
       ''Request = {'', ''}'', [], ''Response = {'',
       ''    '' @ sq @ ''/a'' @ sq @ '': {'',
       ''        '' @ sq @ ''GET'' @ sq @ '': {'',
       ''            '' @ sq @ ''404'' @ sq @ '': NotFoundErrorSchema,'',
       ''        },'',
       ''        '' @ sq @ ''POST'' @ sq @ '': {'',
       ''            '' @ sq @ ''404'' @ sq @ '': NotFoundErrorSchema,'',
       ''        },'',
       ''    },'', ''}'']"
  by code_simp

lemma unquote_examples:
  "unquote ''Pet%20Store'' = ''Pet Store''
   \<and> unquote ''%C3%A9'' = [char_of (195 :: nat), char_of (169 :: nat)]
   \<and> unquote ''%E9'' = replacement_character
   \<and> unquote ''100%'' = ''100%''"
  by code_simp

section \<open>The claims\<close>

text \<open>
  Claim C5. A schema whose \<^verbatim>\<open>anyOf\<close> is a list of members should synthesize to the union of
  the member expressions, as \<^verbatim>\<open>oneOf\<close> does. The synthesizer never reads \<^verbatim>\<open>anyOf\<close>: whatever
  the members are, a schema with only that keyword synthesizes to \<^verbatim>\<open>Any\<close>, while the same
  single member under \<^verbatim>\<open>oneOf\<close> collapses to the member's expression.
\<close>

theorem anyOf_is_ignored:
  "schema_to_type_expr r (PDict [(''anyOf'', PList members)]) = Inr ''Any''
   \<and> schema_to_type_expr new_registry (PDict [(''oneOf'', PList [PDict [(''type'', PStr ''string'')]])])
       = Inr ''Annotated[str, Field(strict=True)]''"
  by (simp add: dget_def has_key_def wrap_nullable_def convert_openapi_union_to_pydantic_def
        bind_r_def convert_openapi_string_to_pydantic_def string_decorated_def wrap_annotated_def
        union_decorate_def)

text \<open>
  Claim C6, as stated, fails: an operation under the method key \<^verbatim>\<open>trace\<close> produces no
  RouteInfo at all.
\<close>

theorem unrecognized_verb_counterexample:
  "parse_openapi_paths [(''paths'', PDict [(''/a'', PDict [(''trace'', PDict [])])])] = []"
  by (simp add: parse_openapi_paths_def routes_of_path_item_def dget_def http_methods_def)

text \<open>
  Claim C6, amended. \<^verbatim>\<open>parse_openapi_paths\<close> returns exactly one RouteInfo for every path item
  that is a dict and every one of the seven method keys, in the order of the method list,
  under which the path item holds a dict; the RouteInfo carries the path and that key in
  upper case and is built from that dict. Removing from the path items every key other
  than \<^verbatim>\<open>parameters\<close> and the seven method keys leaves the result as it is, so an operation
  under any other key produces no RouteInfo. \<^verbatim>\<open>_to_upper_method\<close> by itself maps every string
  that is not one of the seven verbs to \<^verbatim>\<open>GET\<close>.
\<close>

theorem routes_only_for_known_verbs:
  "(\<forall>route \<in> set (parse_openapi_paths openapi).
      \<exists>paths path_item m operation.
        dget openapi ''paths'' = PDict paths
        \<and> (ri_path route, PDict path_item) \<in> set paths
        \<and> m \<in> set http_methods
        \<and> dget path_item m = PDict operation
        \<and> ri_method route = str_upper m
        \<and> route = route_of_operation (ri_path route) path_item m operation)
   \<and> map (\<lambda>route. (ri_path route, ri_method route)) (parse_openapi_paths openapi)
       = concat (map (\<lambda>(p, path_item_obj).
                   case path_item_obj of
                     PDict path_item \<Rightarrow>
                       map (\<lambda>m. (p, str_upper m))
                         (filter (\<lambda>m. is_dict (dget path_item m))
                            [''get'', ''post'', ''put'', ''patch'', ''delete'', ''head'', ''options''])
                   | _ \<Rightarrow> [])
                 (case dget openapi ''paths'' of PDict paths \<Rightarrow> paths | _ \<Rightarrow> []))
   \<and> parse_openapi_paths (known_keys_only openapi) = parse_openapi_paths openapi
   \<and> (str_upper v \<notin> {''GET'', ''POST'', ''PUT'', ''PATCH'', ''DELETE'', ''HEAD'', ''OPTIONS''}
        \<longrightarrow> to_upper_method v = ''GET'')"
proof -
  have c1: "\<exists>paths path_item m operation.
        dget openapi ''paths'' = PDict paths
        \<and> (ri_path route, PDict path_item) \<in> set paths
        \<and> m \<in> set http_methods
        \<and> dget path_item m = PDict operation
        \<and> ri_method route = str_upper m
        \<and> route = route_of_operation (ri_path route) path_item m operation"
    if "route \<in> set (parse_openapi_paths openapi)" for route
  proof -
    from that obtain paths where p: "dget openapi ''paths'' = PDict paths"
      by (cases "dget openapi ''paths''") (auto simp: parse_openapi_paths_def)
    with that obtain p0 item where in_paths: "(p0, item) \<in> set paths"
      and r1: "route \<in> set (routes_of_path_item p0 item)"
      by (auto simp: parse_openapi_paths_def)
    from r1 obtain path_item where item: "item = PDict path_item"
      by (cases item) (auto simp: routes_of_path_item_def)
    from r1 item obtain m where m: "m \<in> set http_methods"
      and r2: "route \<in> set (case dget path_item m of
                         PDict operation \<Rightarrow> [route_of_operation p0 path_item m operation]
                       | _ \<Rightarrow> [])"
      by (auto simp: routes_of_path_item_def)
    from r2 obtain operation where op: "dget path_item m = PDict operation"
      and r3: "route = route_of_operation p0 path_item m operation"
      by (cases "dget path_item m") auto
    from r3 have f: "ri_path route = p0" "ri_method route = to_upper_method m"
      by (simp_all add: route_of_operation_def)
    from r3 f(1) have "route = route_of_operation (ri_path route) path_item m operation" by simp
    with p in_paths item m op to_upper_method_known[OF m] f show ?thesis by auto
  qed
  have c2: "map (\<lambda>route. (ri_path route, ri_method route)) (parse_openapi_paths openapi)
       = concat (map (\<lambda>(p, path_item_obj).
                   case path_item_obj of
                     PDict path_item \<Rightarrow>
                       map (\<lambda>m. (p, str_upper m))
                         (filter (\<lambda>m. is_dict (dget path_item m))
                            [''get'', ''post'', ''put'', ''patch'', ''delete'', ''head'', ''options''])
                   | _ \<Rightarrow> [])
                 (case dget openapi ''paths'' of PDict paths \<Rightarrow> paths | _ \<Rightarrow> []))"
  proof (cases "dget openapi ''paths''")
    case (PDict paths)
    have e: "map (\<lambda>route. (ri_path route, ri_method route)) (routes_of_path_item p item)
        = (case item of
             PDict path_item \<Rightarrow>
               map (\<lambda>m. (p, str_upper m))
                 (filter (\<lambda>m. is_dict (dget path_item m))
                    [''get'', ''post'', ''put'', ''patch'', ''delete'', ''head'', ''options''])
           | _ \<Rightarrow> [])" for p item
      using routes_of_path_item_pairs[of p]
      by (cases item) (simp_all add: routes_of_path_item_def http_methods_def)
    have "map (\<lambda>route. (ri_path route, ri_method route)) (parse_openapi_paths openapi)
        = concat (map (\<lambda>x. map (\<lambda>route. (ri_path route, ri_method route))
                              (routes_of_path_item (fst x) (snd x))) paths)"
      by (simp add: PDict parse_openapi_paths_def map_concat comp_def case_prod_unfold)
    then show ?thesis
      unfolding e by (simp only: PDict pyval.case case_prod_unfold)
  qed (simp_all add: parse_openapi_paths_def)
  from c1 c2 parse_known_keys_only show ?thesis by (auto simp: to_upper_method_def)
qed

theorem routes_only_for_known_verbs_witness:
  "parse_openapi_paths
     [(''paths'', PDict [(''/a/{id}'', PDict
        [(''parameters'', PList [PDict [(''name'', PStr ''id''), (''in'', PStr ''path''),
            (''required'', PBool True), (''schema'', PDict [(''type'', PStr ''string'')])]]),
         (''trace'', PDict [(''responses'', PDict [(''200'', PDict [(''content'', PDict
            [(''application/json'', PDict [(''schema'', PDict [(''type'', PStr ''boolean'')])])])])])]),
         (''post'', PDict
            [(''parameters'', PList [PDict [(''name'', PStr ''q'')]]),
             (''requestBody'', PDict [(''content'', PDict
                [(''application/json'', PDict [(''schema'', PDict [(''type'', PStr ''integer'')])])])]),
             (''responses'', PDict
                [(''200'', PDict [(''content'', PDict
                    [(''application/json'', PDict [(''schema'', PDict [(''type'', PStr ''string'')])])])]),
                 (''404'', PDict [])])])])])]
     = [\<lparr>ri_path = ''/a/{id}'', ri_method = ''POST'',
         ri_parameters =
           [\<lparr>rp_name = ''id'', rp_location = ''path'', rp_required = True,
              rp_schema = PDict [(''type'', PStr ''string'')]\<rparr>,
            \<lparr>rp_name = ''q'', rp_location = ''query'', rp_required = False,
              rp_schema = PDict []\<rparr>],
         ri_request_body = PDict [(''type'', PStr ''integer'')],
         ri_responses = [(''200'', PDict [(''type'', PStr ''string'')])]\<rparr>]
   \<and> map (\<lambda>route. (ri_path route, ri_method route))
       (parse_openapi_paths
          [(''paths'', PDict [(''/a'', PDict [(''trace'', PDict []), (''get'', PDict [])])])])
     = [(''/a'', ''GET'')]
   \<and> parse_openapi_paths [(''paths'', PDict [(''/a'', PDict [(''get'', PDict [])])])]
     = parse_openapi_paths [(''paths'', PDict [(''/a'', PDict [(''trace'', PDict []), (''get'', PDict [])])])]
   \<and> to_upper_method ''trace'' = ''GET''"
proof -
  let ?D = "[(''paths'', PDict [(''/a'', PDict [(''trace'', PDict []), (''get'', PDict [])])])]"
  have e: "parse_openapi_paths
     [(''paths'', PDict [(''/a/{id}'', PDict
        [(''parameters'', PList [PDict [(''name'', PStr ''id''), (''in'', PStr ''path''),
            (''required'', PBool True), (''schema'', PDict [(''type'', PStr ''string'')])]]),
         (''trace'', PDict [(''responses'', PDict [(''200'', PDict [(''content'', PDict
            [(''application/json'', PDict [(''schema'', PDict [(''type'', PStr ''boolean'')])])])])])]),
         (''post'', PDict
            [(''parameters'', PList [PDict [(''name'', PStr ''q'')]]),
             (''requestBody'', PDict [(''content'', PDict
                [(''application/json'', PDict [(''schema'', PDict [(''type'', PStr ''integer'')])])])]),
             (''responses'', PDict
                [(''200'', PDict [(''content'', PDict
                    [(''application/json'', PDict [(''schema'', PDict [(''type'', PStr ''string'')])])])]),
                 (''404'', PDict [])])])])])]
     = [\<lparr>ri_path = ''/a/{id}'', ri_method = ''POST'',
         ri_parameters =
           [\<lparr>rp_name = ''id'', rp_location = ''path'', rp_required = True,
              rp_schema = PDict [(''type'', PStr ''string'')]\<rparr>,
            \<lparr>rp_name = ''q'', rp_location = ''query'', rp_required = False,
              rp_schema = PDict []\<rparr>],
         ri_request_body = PDict [(''type'', PStr ''integer'')],
         ri_responses = [(''200'', PDict [(''type'', PStr ''string'')])]\<rparr>]"
    by code_simp
  have u: "str_upper ''trace'' \<notin> {''GET'', ''POST'', ''PUT'', ''PATCH'', ''DELETE'', ''HEAD'', ''OPTIONS''}"
    by (simp add: str_upper_def upper_c_def)
  have k: "known_keys_only ?D = [(''paths'', PDict [(''/a'', PDict [(''get'', PDict [])])])]"
    by (simp add: known_keys_only_def dget_def)
  have s: "str_upper ''get'' = ''GET''" by (simp add: str_upper_def upper_c_def)
  note t = routes_only_for_known_verbs[of ?D "''trace''"]
  from t u have g: "to_upper_method ''trace'' = ''GET''" by blast
  from t have "parse_openapi_paths (known_keys_only ?D) = parse_openapi_paths ?D" by blast
  then have f: "parse_openapi_paths [(''paths'', PDict [(''/a'', PDict [(''get'', PDict [])])])]
      = parse_openapi_paths ?D" unfolding k .
  from t have "map (\<lambda>route. (ri_path route, ri_method route)) (parse_openapi_paths ?D)
       = concat (map (\<lambda>(p, path_item_obj).
                   case path_item_obj of
                     PDict path_item \<Rightarrow>
                       map (\<lambda>m. (p, str_upper m))
                         (filter (\<lambda>m. is_dict (dget path_item m))
                            [''get'', ''post'', ''put'', ''patch'', ''delete'', ''head'', ''options''])
                   | _ \<Rightarrow> [])
                 (case dget ?D ''paths'' of PDict paths \<Rightarrow> paths | _ \<Rightarrow> []))" by blast
  then have p: "map (\<lambda>route. (ri_path route, ri_method route)) (parse_openapi_paths ?D)
       = [(''/a'', ''GET'')]"
    by (simp add: dget_def s)
  from e p f g show ?thesis by blast
qed

text \<open>
  Claim C8. After \<^verbatim>\<open>email\<close> has been registered under the alias \<^verbatim>\<open>EmailAlias\<close>, the schema
  \<^verbatim>\<open>{"type": "string", "format": "email"}\<close> synthesizes to \<^verbatim>\<open>EmailAlias\<close>; after \<^verbatim>\<open>clear()\<close> it
  synthesizes to the default decorated string type built on \<^verbatim>\<open>EmailStr\<close>.
\<close>

theorem format_round_trip:
  assumes "register r sid \<lparr>schema_exported_variable_name = ''EmailAlias'', reg_type = ''string'',
              reg_format = PStr ''email'', reg_formats = PNone\<rparr> = (None, r')"
  shows "schema_to_type_expr r' (PDict [(''type'', PStr ''string''), (''format'', PStr ''email'')])
           = Inr ''EmailAlias''
       \<and> schema_to_type_expr (clear r') (PDict [(''type'', PStr ''string''), (''format'', PStr ''email'')])
           = Inr (''Annotated[EmailStr, Field(json_schema_extra={'' @ sq @ ''openapi'' @ sq
                  @ '': {'' @ sq @ ''format'' @ sq @ '': '' @ sq @ ''email'' @ sq @ ''}})]'')"
proof -
  have look: "map_of (string_format_to_name r') ''email'' = Some ''EmailAlias''"
    using assms
    by (auto simp: register_def register_string_format_def set_schema_id_def update_conv'
             split: option.splits if_splits)
  have a: "schema_to_type_expr r' (PDict [(''type'', PStr ''string''), (''format'', PStr ''email'')])
             = Inr ''EmailAlias''"
    using look
    by (simp add: dget_def wrap_nullable_def convert_openapi_string_to_pydantic_def
          get_schema_exported_variable_name_for_string_format_def SUPPORTED_STRING_FORMATS_def)
  have b: "schema_to_type_expr (clear r') (PDict [(''type'', PStr ''string''), (''format'', PStr ''email'')])
           = Inr (''Annotated[EmailStr, Field(json_schema_extra={'' @ sq @ ''openapi'' @ sq
                  @ '': {'' @ sq @ ''format'' @ sq @ '': '' @ sq @ ''email'' @ sq @ ''}})]'')"
    by (simp add: dget_def wrap_nullable_def convert_openapi_string_to_pydantic_def clear_def
          get_schema_exported_variable_name_for_string_format_def SUPPORTED_STRING_FORMATS_def
          string_decorated_def wrap_annotated_def format_openapi_meta_def sq_def
          repr_str_def repr_quote_def repr_char_def)
  show ?thesis using a b by simp
qed

theorem format_round_trip_witness:
  "register new_registry 0 \<lparr>schema_exported_variable_name = ''EmailAlias'', reg_type = ''string'',
       reg_format = PStr ''email'', reg_formats = PNone\<rparr>
     = (None, \<lparr>string_format_to_name = [(''email'', ''EmailAlias'')], primitive_type_to_name = [],
               schema_ids = [(0, \<lparr>schema_exported_variable_name = ''EmailAlias'',
                  reg_type = ''string'', reg_format = PStr ''email'', reg_formats = PNone\<rparr>)]\<rparr>)
   \<and> schema_to_type_expr
        \<lparr>string_format_to_name = [(''email'', ''EmailAlias'')], primitive_type_to_name = [],
         schema_ids = [(0, \<lparr>schema_exported_variable_name = ''EmailAlias'',
            reg_type = ''string'', reg_format = PStr ''email'', reg_formats = PNone\<rparr>)]\<rparr>
        (PDict [(''type'', PStr ''string''), (''format'', PStr ''email'')]) = Inr ''EmailAlias''"
proof -
  have h: "register new_registry 0 \<lparr>schema_exported_variable_name = ''EmailAlias'', reg_type = ''string'',
       reg_format = PStr ''email'', reg_formats = PNone\<rparr>
     = (None, \<lparr>string_format_to_name = [(''email'', ''EmailAlias'')], primitive_type_to_name = [],
               schema_ids = [(0, \<lparr>schema_exported_variable_name = ''EmailAlias'',
                  reg_type = ''string'', reg_format = PStr ''email'', reg_formats = PNone\<rparr>)]\<rparr>)"
    by (simp add: register_def register_string_format_def new_registry_def set_schema_id_def
          SUPPORTED_STRING_FORMATS_def)
  from format_round_trip[OF h] h show ?thesis by simp
qed

text \<open>
  Claim C9, as stated, fails: on an empty registry, registering the string format
  \<^verbatim>\<open>hostname\<close> raises although no key is registered under another alias and the type
  \<^verbatim>\<open>string\<close> is recognized.
\<close>

theorem registration_raise_counterexample:
  "fst (register new_registry 0 \<lparr>schema_exported_variable_name = ''X'', reg_type = ''string'',
          reg_format = PStr ''hostname'', reg_formats = PNone\<rparr>) = Some ValueError
   \<and> \<not> rejected_as_claimed new_registry \<lparr>schema_exported_variable_name = ''X'',
          reg_type = ''string'', reg_format = PStr ''hostname'', reg_formats = PNone\<rparr>"
  by (simp add: register_def register_string_format_def new_registry_def
        SUPPORTED_STRING_FORMATS_def rejected_as_claimed_def requested_formats_def
        alias_conflict_def)

text \<open>
  Claim C9, amended. On a registry that stores no empty alias name, registration raises
  exactly when: the type is \<^verbatim>\<open>string\<close> and there is neither a string \<^verbatim>\<open>format\<close> nor a list
  \<^verbatim>\<open>formats\<close>; or one of the requested string formats is not a supported format or is
  already registered under a different alias; or the type is a primitive type already
  registered under a different alias; or the type is none of \<^verbatim>\<open>string\<close>, \<^verbatim>\<open>number\<close>,
  \<^verbatim>\<open>integer\<close>, \<^verbatim>\<open>boolean\<close>. Registering again a registration that was accepted returns
  normally and leaves the whole registry unchanged.
\<close>

theorem registration_raises_exactly:
  assumes "no_empty_alias r"
  shows "((fst (register r sid reg) \<noteq> None) = registration_rejected r reg)
       \<and> (\<forall>r'. register r sid reg = (None, r') \<longrightarrow> register r' sid reg = (None, r'))"
  using register_none_iff[of r sid reg] code_accepts_rejected[OF assms, of reg]
    register_idempotent[of r sid reg]
  by simp

theorem registration_raises_exactly_witness:
  "no_empty_alias \<lparr>string_format_to_name = [(''email'', ''EmailAlias'')],
       primitive_type_to_name = [], schema_ids = []\<rparr>
   \<and> registration_rejected \<lparr>string_format_to_name = [(''email'', ''EmailAlias'')],
       primitive_type_to_name = [], schema_ids = []\<rparr>
        \<lparr>schema_exported_variable_name = ''Other'', reg_type = ''string'',
         reg_format = PStr ''email'', reg_formats = PNone\<rparr>
   \<and> fst (register \<lparr>string_format_to_name = [(''email'', ''EmailAlias'')],
       primitive_type_to_name = [], schema_ids = []\<rparr> 0
        \<lparr>schema_exported_variable_name = ''Other'', reg_type = ''string'',
         reg_format = PStr ''email'', reg_formats = PNone\<rparr>) \<noteq> None"
proof -
  have h: "no_empty_alias \<lparr>string_format_to_name = [(''email'', ''EmailAlias'')],
       primitive_type_to_name = [], schema_ids = []\<rparr>"
    by (simp add: no_empty_alias_def)
  have rej: "registration_rejected \<lparr>string_format_to_name = [(''email'', ''EmailAlias'')],
       primitive_type_to_name = [], schema_ids = []\<rparr>
        \<lparr>schema_exported_variable_name = ''Other'', reg_type = ''string'',
         reg_format = PStr ''email'', reg_formats = PNone\<rparr>"
    by (simp add: registration_rejected_def requested_formats_def alias_conflict_def
          SUPPORTED_STRING_FORMATS_def)
  from registration_raises_exactly[OF h, of 0 "\<lparr>schema_exported_variable_name = ''Other'',
         reg_type = ''string'', reg_format = PStr ''email'', reg_formats = PNone\<rparr>"] h rej
  show ?thesis by blast
qed

text \<open>
  Claim C3, as stated, fails in its last clause. The schemas under \<^verbatim>\<open>components\<close> are named
  schemas, but they are emitted without asking the fingerprint registry: two components
  with equal fingerprints get two full declarations and no alias (the fingerprint is
  pre-registered after each declaration, and the second pre-registration overwrites the
  first).
\<close>

theorem equal_components_counterexample:
  "emit_components new_registry
     [(''A'', PDict [(''type'', PStr ''string'')]), (''B'', PDict [(''type'', PStr ''string'')])]
     (topological_sort_schemas id
        [(''A'', PDict [(''type'', PStr ''string'')]), (''B'', PDict [(''type'', PStr ''string'')])])
     [] create_schema_registry
   = Inr ([''A: TypeAlias = Annotated[str, Field(strict=True)]'',
           ''ASchema = TypeAdapter(A)'', [],
           ''B: TypeAlias = Annotated[str, Field(strict=True)]'',
           ''BSchema = TypeAdapter(B)'', []],
          \<lparr>fingerprint_to_name = [(get_schema_fingerprint (PDict [(''type'', PStr ''string'')]), ''B'')]\<rparr>)
   \<and> openapi_to_pydantic_code id new_registry
       [(''components'', PDict [(''schemas'', PDict
          [(''A'', PDict [(''type'', PStr ''string'')]), (''B'', PDict [(''type'', PStr ''string'')])])])]
       [] None
   = Inr (join [CHR 0x0A]
           (preamble @
            [''A: TypeAlias = Annotated[str, Field(strict=True)]'',
             ''ASchema = TypeAdapter(A)'', [],
             ''B: TypeAlias = Annotated[str, Field(strict=True)]'',
             ''BSchema = TypeAdapter(B)'', []]))"
  by code_simp

text \<open>
  Claim C3, amended. A \<^verbatim>\<open>register_schema\<close> call with a non-empty name, for a fingerprint that
  the registry does not map to a non-empty name, returns \<^verbatim>\<open>is_new = True\<close> with the caller's
  name as canonical. In every sequence of \<^verbatim>\<open>register_schema\<close> calls that follows, each call
  whose schema has the same fingerprint returns \<^verbatim>\<open>is_new = False\<close> with the first caller's
  name, and such a call leaves the registry as it is. Consequently two schemas with equal
  fingerprints and different names that are registered one after the other by
  \<^verbatim>\<open>register_and_emit\<close>, as the schemas of the routes are, produce the full declaration of
  the first and one alias pair referring to it.
\<close>

theorem first_caller_is_canonical:
  assumes "name1 \<noteq> []"
    and "map_of (fingerprint_to_name registry) (get_schema_fingerprint schema1) = None
       \<or> map_of (fingerprint_to_name registry) (get_schema_fingerprint schema1) = Some []"
  shows "fst (register_schema registry name1 schema1) = \<lparr>is_new = True, canonical_name = name1\<rparr>
   \<and> (\<forall>calls i. i < length calls
          \<and> get_schema_fingerprint (snd (calls ! i)) = get_schema_fingerprint schema1
        \<longrightarrow> fst (register_schema_calls (snd (register_schema registry name1 schema1)) calls) ! i
              = \<lparr>is_new = False, canonical_name = name1\<rparr>)
   \<and> (\<forall>name2 schema2. get_schema_fingerprint schema2 = get_schema_fingerprint schema1
        \<longrightarrow> register_schema (snd (register_schema registry name1 schema1)) name2 schema2
              = (\<lparr>is_new = False, canonical_name = name1\<rparr>,
                 snd (register_schema registry name1 schema1)))
   \<and> (\<forall>r st name2 schema2 ls.
          es_registry st = registry
          \<and> get_schema_fingerprint schema2 = get_schema_fingerprint schema1
          \<and> name2 \<noteq> name1
          \<and> emit_schema_definition r name1 schema1 = Inr ls
        \<longrightarrow> (\<exists>st1 st2. register_and_emit r st name1 schema1 = Inr st1
               \<and> es_declarations st1 = es_declarations st @ ls
               \<and> register_and_emit r st1 name2 schema2 = Inr st2
               \<and> es_declarations st2 = es_declarations st1 @ emit_schema_alias name2 name1 @ [[]]
               \<and> es_registry st2 = es_registry st1))"
proof -
  let ?fp = "get_schema_fingerprint schema1"
  let ?reg1 = "pre_register_schema registry name1 ?fp"
  note first = register_schema_first[OF assms]
  have m: "map_of (fingerprint_to_name ?reg1) ?fp = Some name1"
    by (rule pre_register_schema_overwrites)
  have c1: "fst (register_schema registry name1 schema1) = \<lparr>is_new = True, canonical_name = name1\<rparr>"
    by (simp add: first)
  have c2: "fst (register_schema_calls (snd (register_schema registry name1 schema1)) calls) ! i
              = \<lparr>is_new = False, canonical_name = name1\<rparr>"
    if "i < length calls" "get_schema_fingerprint (snd (calls ! i)) = ?fp" for calls i
    using register_schema_calls_existing[OF m assms(1) that] by (simp add: first)
  have c3: "register_schema (snd (register_schema registry name1 schema1)) name2 schema2
              = (\<lparr>is_new = False, canonical_name = name1\<rparr>,
                 snd (register_schema registry name1 schema1))"
    if "get_schema_fingerprint schema2 = ?fp" for name2 schema2
    using register_schema_existing[of ?reg1 schema2 name1 name2] m assms(1) that
    by (simp add: first)
  have c4: "\<exists>st1 st2. register_and_emit r st name1 schema1 = Inr st1
               \<and> es_declarations st1 = es_declarations st @ ls
               \<and> register_and_emit r st1 name2 schema2 = Inr st2
               \<and> es_declarations st2 = es_declarations st1 @ emit_schema_alias name2 name1 @ [[]]
               \<and> es_registry st2 = es_registry st1"
    if "es_registry st = registry" "get_schema_fingerprint schema2 = ?fp" "name2 \<noteq> name1"
      "emit_schema_definition r name1 schema1 = Inr ls" for r st name2 schema2 ls
  proof -
    let ?st1 = "\<lparr>es_registry = pre_register_schema (es_registry st) name1 ?fp,
          es_declarations = es_declarations st @ ls,
          es_canonical = AList.update name1 name1 (es_canonical st)\<rparr>"
    from assms(2) that(1) have a: "map_of (fingerprint_to_name (es_registry st)) ?fp = None
       \<or> map_of (fingerprint_to_name (es_registry st)) ?fp = Some []" by simp
    have s1: "register_and_emit r st name1 schema1 = Inr ?st1"
      by (rule register_and_emit_first[OF assms(1) a that(4)])
    have "map_of (fingerprint_to_name (es_registry ?st1)) (get_schema_fingerprint schema2) = Some name1"
      by (simp add: that(2) pre_register_schema_overwrites)
    from register_and_emit_existing[OF this assms(1), of r name2] that(3) s1
    show ?thesis by auto
  qed
  from c1 c2 c3 c4 show ?thesis by blast
qed

theorem first_caller_is_canonical_witness:
  "fst (register_schema (pre_register_schema create_schema_registry []
          (get_schema_fingerprint (PDict [(''type'', PStr ''string'')])))
        ''GetA200Response'' (PDict [(''type'', PStr ''string'')]))
     = \<lparr>is_new = True, canonical_name = ''GetA200Response''\<rparr>
   \<and> fst (register_schema_calls
           (snd (register_schema (pre_register_schema create_schema_registry []
                   (get_schema_fingerprint (PDict [(''type'', PStr ''string'')])))
                 ''GetA200Response'' (PDict [(''type'', PStr ''string'')])))
           [(''GetB200Response'', PDict [(''type'', PStr ''integer'')]),
            (''PostA200Response'', PDict [(''type'', PStr ''string'')])]) ! 1
     = \<lparr>is_new = False, canonical_name = ''GetA200Response''\<rparr>
   \<and> (\<exists>st1 st2.
         register_and_emit new_registry
           \<lparr>es_registry = pre_register_schema create_schema_registry []
               (get_schema_fingerprint (PDict [(''type'', PStr ''string'')])),
            es_declarations = [], es_canonical = []\<rparr>
           ''GetA200Response'' (PDict [(''type'', PStr ''string'')]) = Inr st1
       \<and> es_declarations st1 =
           [''GetA200Response: TypeAlias = Annotated[str, Field(strict=True)]'',
            ''GetA200ResponseSchema = TypeAdapter(GetA200Response)'', []]
       \<and> register_and_emit new_registry st1 ''PostA200Response'' (PDict [(''type'', PStr ''string'')])
           = Inr st2
       \<and> es_declarations st2 =
           [''GetA200Response: TypeAlias = Annotated[str, Field(strict=True)]'',
            ''GetA200ResponseSchema = TypeAdapter(GetA200Response)'', [],
            ''PostA200Response = GetA200Response'',
            ''PostA200ResponseSchema = GetA200ResponseSchema'', []])"
proof -
  let ?S = "PDict [(''type'', PStr ''string'')]"
  let ?REG = "pre_register_schema create_schema_registry [] (get_schema_fingerprint ?S)"
  let ?calls = "[(''GetB200Response'', PDict [(''type'', PStr ''integer'')]),
                 (''PostA200Response'', ?S)]"
  let ?st = "\<lparr>es_registry = ?REG, es_declarations = [], es_canonical = []\<rparr>"
  have h1: "''GetA200Response'' \<noteq> []" by simp
  have h2: "map_of (fingerprint_to_name ?REG) (get_schema_fingerprint ?S) = None
       \<or> map_of (fingerprint_to_name ?REG) (get_schema_fingerprint ?S) = Some []"
    by (simp add: pre_register_schema_overwrites)
  note t = first_caller_is_canonical[OF h1 h2]
  note c1 = t[THEN conjunct1]
  have i: "(1 :: nat) < length ?calls" by simp
  have f: "get_schema_fingerprint (snd (?calls ! 1)) = get_schema_fingerprint ?S" by simp
  note c2 = t[THEN conjunct2, THEN conjunct1, rule_format, of 1 ?calls, OF conjI, OF i f]
  have e: "emit_schema_definition new_registry ''GetA200Response'' ?S
      = Inr [''GetA200Response: TypeAlias = Annotated[str, Field(strict=True)]'',
             ''GetA200ResponseSchema = TypeAdapter(GetA200Response)'', []]"
    by code_simp
  have r: "es_registry ?st = ?REG" by simp
  have n: "''PostA200Response'' \<noteq> ''GetA200Response''" by simp
  have g: "get_schema_fingerprint ?S = get_schema_fingerprint ?S" by simp
  have pre: "es_registry ?st = ?REG
          \<and> get_schema_fingerprint ?S = get_schema_fingerprint ?S
          \<and> ''PostA200Response'' \<noteq> ''GetA200Response''
          \<and> emit_schema_definition new_registry ''GetA200Response'' ?S
              = Inr [''GetA200Response: TypeAlias = Annotated[str, Field(strict=True)]'',
                     ''GetA200ResponseSchema = TypeAdapter(GetA200Response)'', []]"
    using r n e by simp
  note c4 = t[THEN conjunct2, THEN conjunct2, THEN conjunct2, rule_format,
      of ?st ?S "''PostA200Response''" new_registry
         "[''GetA200Response: TypeAlias = Annotated[str, Field(strict=True)]'',
           ''GetA200ResponseSchema = TypeAdapter(GetA200Response)'', []]", OF pre]
  from c4 obtain st1 st2 where
    s: "register_and_emit new_registry ?st ''GetA200Response'' ?S = Inr st1"
       "es_declarations st1 = es_declarations ?st
            @ [''GetA200Response: TypeAlias = Annotated[str, Field(strict=True)]'',
               ''GetA200ResponseSchema = TypeAdapter(GetA200Response)'', []]"
       "register_and_emit new_registry st1 ''PostA200Response'' ?S = Inr st2"
       "es_declarations st2 = es_declarations st1
            @ emit_schema_alias ''PostA200Response'' ''GetA200Response'' @ [[]]"
    by blast
  from s(2) have d1: "es_declarations st1 =
       [''GetA200Response: TypeAlias = Annotated[str, Field(strict=True)]'',
        ''GetA200ResponseSchema = TypeAdapter(GetA200Response)'', []]" by simp
  from s(4) d1 have d2: "es_declarations st2 =
           [''GetA200Response: TypeAlias = Annotated[str, Field(strict=True)]'',
            ''GetA200ResponseSchema = TypeAdapter(GetA200Response)'', [],
            ''PostA200Response = GetA200Response'',
            ''PostA200ResponseSchema = GetA200ResponseSchema'', []]"
    by (simp add: emit_schema_alias_def)
  from c1 c2 s(1) d1 s(3) d2 show ?thesis by blast
qed

text \<open>
  Claim C10. \<^verbatim>\<open>register_schema\<close> on a fingerprint that is already present should leave the
  registry unchanged. When the fingerprint is present with the empty name (as
  \<^verbatim>\<open>pre_register_schema\<close> stores it for a component named by the empty string), the call
  overwrites the entry and reports a new schema. \<^verbatim>\<open>pre_register_schema\<close> does overwrite
  unconditionally (lemma \<open>pre_register_schema_overwrites\<close>).
\<close>

theorem present_fingerprint_overwritten:
  "map_of (fingerprint_to_name
       (pre_register_schema create_schema_registry [] (get_schema_fingerprint schema)))
     (get_schema_fingerprint schema) = Some []
   \<and> register_schema
       (pre_register_schema create_schema_registry [] (get_schema_fingerprint schema)) ''B'' schema
     = (\<lparr>is_new = True, canonical_name = ''B''\<rparr>,
        pre_register_schema create_schema_registry ''B'' (get_schema_fingerprint schema))"
  by (simp add: register_schema_def create_schema_registry_def pre_register_schema_def)

text \<open>
  Claim C2, as stated, fails. In the map \<^verbatim>\<open>{A: ref B, B: ref C, C: ref C}\<close> the only cycle is
  \<^verbatim>\<open>C \<rightarrow> C\<close>; neither \<^verbatim>\<open>A\<close> nor \<^verbatim>\<open>B\<close> lies on a cycle and \<^verbatim>\<open>A\<close> depends on \<^verbatim>\<open>B\<close>, yet
  no name ever reaches in-degree zero, the fallback appends all three in declaration
  order, and \<^verbatim>\<open>B\<close> does not come before \<^verbatim>\<open>A\<close>.
\<close>

theorem topological_sort_counterexample:
  "topological_sort_schemas id
     [(''A'', PDict [(''$ref'', PStr ''#/components/schemas/B'')]),
      (''B'', PDict [(''$ref'', PStr ''#/components/schemas/C'')]),
      (''C'', PDict [(''$ref'', PStr ''#/components/schemas/C'')])] = [''A'', ''B'', ''C'']
   \<and> deps_fun id
     [(''A'', PDict [(''$ref'', PStr ''#/components/schemas/B'')]),
      (''B'', PDict [(''$ref'', PStr ''#/components/schemas/C'')]),
      (''C'', PDict [(''$ref'', PStr ''#/components/schemas/C'')])] ''A'' = [''B'']
   \<and> deps_fun id
     [(''A'', PDict [(''$ref'', PStr ''#/components/schemas/B'')]),
      (''B'', PDict [(''$ref'', PStr ''#/components/schemas/C'')]),
      (''C'', PDict [(''$ref'', PStr ''#/components/schemas/C'')])] ''B'' = [''C'']
   \<and> deps_fun id
     [(''A'', PDict [(''$ref'', PStr ''#/components/schemas/B'')]),
      (''B'', PDict [(''$ref'', PStr ''#/components/schemas/C'')]),
      (''C'', PDict [(''$ref'', PStr ''#/components/schemas/C'')])] ''C'' = [''C'']
   \<and> \<not> precedes ''B'' ''A'' (topological_sort_schemas id
     [(''A'', PDict [(''$ref'', PStr ''#/components/schemas/B'')]),
      (''B'', PDict [(''$ref'', PStr ''#/components/schemas/C'')]),
      (''C'', PDict [(''$ref'', PStr ''#/components/schemas/C'')])])"
  by code_simp

text \<open>
  Claim C2, amended. For a schemas map (distinct keys) and any iteration order of the
  dependency sets, \<^verbatim>\<open>topological_sort_schemas\<close> returns every schema name exactly once. The
  result is the list emitted by the queue loop followed by the names the loop did not
  emit, in declaration order. For every local dependency edge \<open>A \<rightarrow> B\<close> whose \<open>A\<close> was
  emitted by the queue loop, \<open>B\<close> comes before \<open>A\<close>. Every name all of whose dependency
  chains are finite (it reaches no cycle) is emitted by the queue loop; every name that is
  not emitted depends on another name that is not emitted. The function is total.
\<close>

theorem topological_sort_amended:
  assumes "set_order_ok so" "distinct (map fst schemas)"
  shows "distinct (topological_sort_schemas so schemas)
       \<and> set (topological_sort_schemas so schemas) = set (map fst schemas)
       \<and> topological_sort_schemas so schemas =
           kahn_emitted so schemas
             @ filter (\<lambda>n. n \<notin> set (kahn_emitted so schemas)) (map fst schemas)
       \<and> (\<forall>a b. (b, a) \<in> local_edges so schemas \<and> a \<in> set (kahn_emitted so schemas)
              \<longrightarrow> precedes b a (topological_sort_schemas so schemas))
       \<and> (\<forall>a. a \<in> fst ` set schemas \<and> a \<in> Wellfounded.acc (local_edges so schemas)
              \<longrightarrow> a \<in> set (kahn_emitted so schemas))
       \<and> (\<forall>a. a \<in> fst ` set schemas \<and> a \<notin> set (kahn_emitted so schemas)
              \<longrightarrow> (\<exists>b. (b, a) \<in> local_edges so schemas \<and> b \<notin> set (kahn_emitted so schemas)))"
proof -
  let ?R = "kahn_emitted so schemas" and ?N = "map fst schemas" and ?D = "deps_fun so schemas"
  from kahn_emitted_inv[OF assms] obtain in_degree where
    inv: "kahn_inv ?N ?D in_degree [] ?R" ..
  note g = graph_ok_deps_fun[OF assms]
  note split = topological_sort_split[OF assms]
  from inv have dR: "distinct ?R" and sR: "set ?R \<subseteq> set ?N" by (auto simp: kahn_inv_def)
  have c1: "distinct (topological_sort_schemas so schemas)"
    unfolding split using dR assms(2) by auto
  have c2: "set (topological_sort_schemas so schemas) = set ?N"
    unfolding split using sR by auto
  have c4: "precedes b a (topological_sort_schemas so schemas)"
    if "(b, a) \<in> local_edges so schemas" "a \<in> set ?R" for a b
    unfolding split using that emitted_precedes[OF inv, of a b]
    by (auto simp: local_edges_def intro: precedes_append)
  have e: "local_edges so schemas = {(b, a). a \<in> set ?N \<and> b \<in> set (?D a)}"
    by (simp add: local_edges_def)
  have c5: "a \<in> set ?R" if "a \<in> fst ` set schemas" "a \<in> Wellfounded.acc (local_edges so schemas)" for a
    using acc_emitted[OF g inv, of a] that unfolding e by simp
  have c6: "\<exists>b. (b, a) \<in> local_edges so schemas \<and> b \<notin> set ?R"
    if "a \<in> fst ` set schemas" "a \<notin> set ?R" for a
  proof -
    from that have aN: "a \<in> set ?N" by simp
    from kahn_inv_mem[OF inv aN] that(2) have "\<not> set (?D a) \<subseteq> set ?R" by simp
    then obtain b where "b \<in> set (?D a)" "b \<notin> set ?R" by auto
    with that(1) show ?thesis by (auto simp: local_edges_def)
  qed
  from c1 c2 split c4 c5 c6 show ?thesis by blast
qed

theorem topological_sort_amended_witness:
  "set_order_ok id
   \<and> distinct (map fst [(''A'', PDict [(''$ref'', PStr ''#/components/schemas/B'')]),
                         (''B'', PDict [(''type'', PStr ''string'')])])
   \<and> (''B'', ''A'') \<in> local_edges id [(''A'', PDict [(''$ref'', PStr ''#/components/schemas/B'')]),
                         (''B'', PDict [(''type'', PStr ''string'')])]
   \<and> ''A'' \<in> set (kahn_emitted id [(''A'', PDict [(''$ref'', PStr ''#/components/schemas/B'')]),
                         (''B'', PDict [(''type'', PStr ''string'')])])
   \<and> precedes ''B'' ''A'' (topological_sort_schemas id
         [(''A'', PDict [(''$ref'', PStr ''#/components/schemas/B'')]),
          (''B'', PDict [(''type'', PStr ''string'')])])"
proof -
  let ?S = "[(''A'', PDict [(''$ref'', PStr ''#/components/schemas/B'')]),
             (''B'', PDict [(''type'', PStr ''string'')])]"
  have h1: "set_order_ok id" by (simp add: set_order_ok_def)
  have h2: "distinct (map fst ?S)" by simp
  have d: "deps_fun id ?S ''A'' = [''B'']" by code_simp
  have e: "(''B'', ''A'') \<in> local_edges id ?S"
    using d by (simp add: local_edges_def)
  have k: "kahn_emitted id ?S = [''B'', ''A'']" by code_simp
  have m: "''A'' \<in> set (kahn_emitted id ?S)" unfolding k by simp
  from topological_sort_amended[OF h1 h2] e m
  have "precedes ''B'' ''A'' (topological_sort_schemas id ?S)" by blast
  with h1 h2 e m show ?thesis by blast
qed

text \<open>
  Claim C7. Compilation should never raise on malformed input. A \<^verbatim>\<open>required\<close> that is not
  iterable makes \<^verbatim>\<open>set(schema.get("required", []))\<close> in \<^verbatim>\<open>_generate_model_lines\<close> raise
  \<^verbatim>\<open>TypeError\<close> (the \<^verbatim>\<open>allOf\<close> branch of \<^verbatim>\<open>_emit_schema_definition\<close> does test
  \<^verbatim>\<open>isinstance(required, list)\<close>), and a \<^verbatim>\<open>type\<close> that is a list makes
  \<^verbatim>\<open>schema_type in {"number", "integer"}\<close> in \<^verbatim>\<open>_schema_to_type_expr\<close> raise \<^verbatim>\<open>TypeError\<close>.
\<close>

theorem malformed_required_raises:
  "openapi_to_pydantic_code id new_registry
     [(''components'', PDict [(''schemas'', PDict [(''A'', PDict [(''type'', PStr ''object''),
          (''properties'', PDict [(''a'', PDict [(''type'', PStr ''string'')])]),
          (''required'', PInt 5)])])])] [] None = Inl TypeError
   \<and> schema_to_type_expr new_registry (PDict [(''type'', PList [PStr ''string'', PStr ''null''])])
       = Inl TypeError"
  by code_simp

text \<open>
  Claim C1. Compiling the same document (a Python value: the keys of its component map
  are distinct) with the same import lines and options twice, each time on a freshly
  cleared format registry, gives the same result, whatever the registry held before it
  was cleared and in whatever order the dependency sets are iterated in the two runs.
\<close>

theorem compilation_deterministic:
  assumes "set_order_ok so1" "set_order_ok so2"
    and "distinct (map fst (component_schemas openapi))"
  shows "openapi_to_pydantic_code so1 (clear r1) openapi custom_import_lines options
       = openapi_to_pydantic_code so2 (clear r2) openapi custom_import_lines options"
proof -
  have "clear r1 = clear r2" by (simp add: clear_def)
  moreover have "topological_sort_schemas so1 (component_schemas openapi)
      = topological_sort_schemas so2 (component_schemas openapi)"
    by (rule topological_sort_order_independent[OF assms])
  ultimately show ?thesis by (simp add: openapi_to_pydantic_code_def)
qed

theorem compilation_deterministic_witness:
  "set_order_ok id \<and> set_order_ok rev
   \<and> distinct (map fst (component_schemas
        [(''components'', PDict [(''schemas'', PDict
           [(''A'', PDict [(''properties'', PDict
               [(''x'', PDict [(''$ref'', PStr ''#/components/schemas/B'')]),
                (''y'', PDict [(''$ref'', PStr ''#/components/schemas/C'')])])]),
            (''B'', PDict [(''type'', PStr ''string''), (''format'', PStr ''email'')]),
            (''C'', PDict [(''type'', PStr ''integer'')])])])]))
   \<and> openapi_to_pydantic_code id (clear new_registry)
        [(''components'', PDict [(''schemas'', PDict
           [(''A'', PDict [(''properties'', PDict
               [(''x'', PDict [(''$ref'', PStr ''#/components/schemas/B'')]),
                (''y'', PDict [(''$ref'', PStr ''#/components/schemas/C'')])])]),
            (''B'', PDict [(''type'', PStr ''string''), (''format'', PStr ''email'')]),
            (''C'', PDict [(''type'', PStr ''integer'')])])])] [] None
     = openapi_to_pydantic_code rev
        (clear \<lparr>string_format_to_name = [(''email'', ''EmailAlias'')],
                primitive_type_to_name = [], schema_ids = []\<rparr>)
        [(''components'', PDict [(''schemas'', PDict
           [(''A'', PDict [(''properties'', PDict
               [(''x'', PDict [(''$ref'', PStr ''#/components/schemas/B'')]),
                (''y'', PDict [(''$ref'', PStr ''#/components/schemas/C'')])])]),
            (''B'', PDict [(''type'', PStr ''string''), (''format'', PStr ''email'')]),
            (''C'', PDict [(''type'', PStr ''integer'')])])])] [] None"
proof -
  let ?doc = "[(''components'', PDict [(''schemas'', PDict
           [(''A'', PDict [(''properties'', PDict
               [(''x'', PDict [(''$ref'', PStr ''#/components/schemas/B'')]),
                (''y'', PDict [(''$ref'', PStr ''#/components/schemas/C'')])])]),
            (''B'', PDict [(''type'', PStr ''string''), (''format'', PStr ''email'')]),
            (''C'', PDict [(''type'', PStr ''integer'')])])])]"
  have h1: "set_order_ok id" by (simp add: set_order_ok_def)
  have h2: "set_order_ok rev" by (simp add: set_order_ok_def)
  have h3: "distinct (map fst (component_schemas ?doc))"
    by (simp add: component_schemas_def dget_def)
  from compilation_deterministic[OF h1 h2 h3] h1 h2 h3 show ?thesis by blast
qed

text \<open>
  Claim C4 as stated. Two routes whose \<^verbatim>\<open>401\<close> responses have the same fingerprint (and no
  error code) give one shared declaration and one alias pair, not two: the shared
  declaration takes the first occurrence's derived name, so the first route's registration
  emits nothing. Two routes whose \<^verbatim>\<open>200\<close> responses have the same fingerprint are hoisted in
  the same way: \<^verbatim>\<open>_collect_route_schemas\<close> collects the responses of every status.
\<close>

theorem hoisting_counterexample:
  "emit_routes new_registry
     [(''paths'', PDict [(''/a'', PDict [
        (''get'', PDict [(''responses'', PDict [(''401'',
           PDict [(''content'', PDict [(''application/json'',
             PDict [(''schema'', PDict [(''type'', PStr ''string'')])])])])])]),
        (''post'', PDict [(''responses'', PDict [(''401'',
           PDict [(''content'', PDict [(''application/json'',
             PDict [(''schema'', PDict [(''type'', PStr ''string'')])])])])])])])])]
     [] create_schema_registry = Inr
      [''# Common Error Schemas (deduplicated)'',
       ''GetA401ErrorResponse: TypeAlias = Annotated[str, Field(strict=True)]'',
       ''GetA401ErrorResponseSchema = TypeAdapter(GetA401ErrorResponse)'', [], [],
       ''# Route Schemas'',
       ''PostA401ErrorResponse = GetA401ErrorResponse'',
       ''PostA401ErrorResponseSchema = GetA401ErrorResponseSchema'', [], [],
       ''Request = {'', ''}'', [], ''Response = {'',
       ''    '' @ sq @ ''/a'' @ sq @ '': {'',
       ''        '' @ sq @ ''GET'' @ sq @ '': {'',
       ''            '' @ sq @ ''401'' @ sq @ '': GetA401ErrorResponseSchema,'',
       ''        },'',
       ''        '' @ sq @ ''POST'' @ sq @ '': {'',
       ''            '' @ sq @ ''401'' @ sq @ '': GetA401ErrorResponseSchema,'',
       ''        },'',
       ''    },'', ''}'']
   \<and> emit_routes new_registry
     [(''paths'', PDict [(''/a'', PDict [
        (''get'', PDict [(''responses'', PDict [(''200'',
           PDict [(''content'', PDict [(''application/json'',
             PDict [(''schema'', PDict [(''type'', PStr ''string'')])])])])])]),
        (''post'', PDict [(''responses'', PDict [(''200'',
           PDict [(''content'', PDict [(''application/json'',
             PDict [(''schema'', PDict [(''type'', PStr ''string'')])])])])])])])])]
     [] create_schema_registry = Inr
      [''# Common Error Schemas (deduplicated)'',
       ''GetA200Response: TypeAlias = Annotated[str, Field(strict=True)]'',
       ''GetA200ResponseSchema = TypeAdapter(GetA200Response)'', [], [],
       ''# Route Schemas'',
       ''PostA200Response = GetA200Response'',
       ''PostA200ResponseSchema = GetA200ResponseSchema'', [], [],
       ''Request = {'', ''}'', [], ''Response = {'',
       ''    '' @ sq @ ''/a'' @ sq @ '': {'',
       ''        '' @ sq @ ''GET'' @ sq @ '': {'',
       ''            '' @ sq @ ''200'' @ sq @ '': GetA200ResponseSchema,'',
       ''        },'',
       ''        '' @ sq @ ''POST'' @ sq @ '': {'',
       ''            '' @ sq @ ''200'' @ sq @ '': GetA200ResponseSchema,'',
       ''        },'',
       ''    },'', ''}'']"
  by code_simp

text \<open>
  Claim C4, amended. The hoisting pass groups the non-empty response schemas of all routes,
  whatever their status, by fingerprint. The common schemas have distinct fingerprints, and
  there is one for a fingerprint exactly when it occurs at least twice. Its schema is the
  first occurrence's. Its name is read off the first occurrence: when the value found there
  under \<^verbatim>\<open>properties\<close>, \<^verbatim>\<open>error\<close>, \<^verbatim>\<open>properties\<close>, \<^verbatim>\<open>code\<close>, \<^verbatim>\<open>enum\<close> is a list of one element, the
  name is the text of that element, split at underscores, each part capitalized, followed
  by \<^verbatim>\<open>Error\<close>; otherwise it is the first occurrence's derived name. The name is never empty.
  The hoisting loop emits exactly one declaration for every common schema whose fingerprint
  is not yet registered, and registers the fingerprint under the shared name. From then on
  every registration of the per-route pass whose schema has that fingerprint leaves the
  registry as it is and emits the alias pair when its derived name differs from the shared
  name, and nothing when it is the shared name itself.
\<close>

theorem hoisting_pass_amended:
  assumes "collect_route_schemas routes = Inr nss"
    and "find_common_schemas nss 2 = Inr cs"
    and "hoist_common r cs lines registry = Inr (lines', registry')"
  shows "map ns_schema nss = all_responses routes
    \<and> distinct (map cs_fingerprint cs)
    \<and> (\<forall>fp. (\<exists>c \<in> set cs. cs_fingerprint c = fp) = (2 \<le> length (occurrences fp nss)))
    \<and> (\<forall>c \<in> set cs. \<exists>first rest. occurrences (cs_fingerprint c) nss = first # rest
           \<and> cs_schema c = ns_schema first \<and> cs_count c = length (first # rest)
           \<and> cs_name c =
               (case value_at (ns_schema first)
                       [''properties'', ''error'', ''properties'', ''code'', ''enum''] of
                  Some (PList [code]) \<Rightarrow>
                    concat (map capitalize (split (str_of code) ''_'')) @ ''Error''
                | _ \<Rightarrow> ns_name first)
           \<and> cs_name c \<noteq> [])
    \<and> (\<exists>dls. map (\<lambda>c. emit_schema_definition r (cs_name c) (cs_schema c))
                (filter (\<lambda>c. \<not> has_name (fingerprint_to_name registry) (cs_fingerprint c)) cs)
              = map Inr dls
           \<and> lines' = lines @ concat dls)
    \<and> (\<forall>c \<in> set cs. \<not> has_name (fingerprint_to_name registry) (cs_fingerprint c) \<longrightarrow>
          map_of (fingerprint_to_name registry') (cs_fingerprint c) = Some (cs_name c))
    \<and> (\<forall>c \<in> set cs. \<forall>pre name schema post st.
          \<not> has_name (fingerprint_to_name registry) (cs_fingerprint c)
          \<and> concat (map route_items routes) = pre @ (Inr name, schema) # post
          \<and> get_schema_fingerprint schema = cs_fingerprint c
          \<and> register_items r pre
               \<lparr>es_registry = registry', es_declarations = [], es_canonical = []\<rparr> = Inr st
          \<longrightarrow> register_and_emit r st name schema =
                Inr \<lparr>es_registry = es_registry st,
                     es_declarations = es_declarations st
                       @ (if name \<noteq> cs_name c then emit_schema_alias name (cs_name c) @ [[]] else []),
                     es_canonical = AList.update name (cs_name c) (es_canonical st)\<rparr>)"
proof -
  have c1: "map ns_schema nss = all_responses routes"
    by (rule collect_all_responses[OF assms(1)])
  have c2: "distinct (map cs_fingerprint cs)"
    by (rule find_common_schemas_spec(1)[OF assms(2)])
  have c3: "(\<exists>c \<in> set cs. cs_fingerprint c = fp) = (2 \<le> length (occurrences fp nss))" for fp
    using find_common_schemas_spec(2)[OF assms(2), of fp] by auto
  have c4: "\<exists>first rest. occurrences (cs_fingerprint c) nss = first # rest
           \<and> cs_schema c = ns_schema first \<and> cs_count c = length (first # rest)
           \<and> cs_name c =
               (case value_at (ns_schema first)
                       [''properties'', ''error'', ''properties'', ''code'', ''enum''] of
                  Some (PList [code]) \<Rightarrow>
                    concat (map capitalize (split (str_of code) ''_'')) @ ''Error''
                | _ \<Rightarrow> ns_name first)
           \<and> cs_name c \<noteq> []" if "c \<in> set cs" for c
  proof -
    from find_common_schemas_spec(3)[OF assms(2) that] obtain first rest where
      f: "occurrences (cs_fingerprint c) nss = first # rest"
         "cs_schema c = ns_schema first" "cs_count c = length (first # rest)"
         "cs_name c = shared_name first" by blast
    from f(1) have "first \<in> set (occurrences (cs_fingerprint c) nss)" by simp
    then have "first \<in> set nss" by (simp add: occurrences_def)
    from collect_names_nonempty[OF assms(1) this] have "shared_name first \<noteq> []"
      by (rule shared_name_nonempty)
    with f(4) have ne: "cs_name c \<noteq> []" by simp
    from f(4) have nm: "cs_name c =
               (case value_at (ns_schema first)
                       [''properties'', ''error'', ''properties'', ''code'', ''enum''] of
                  Some (PList [code]) \<Rightarrow>
                    concat (map capitalize (split (str_of code) ''_'')) @ ''Error''
                | _ \<Rightarrow> ns_name first)"
      unfolding shared_name_value_at .
    from f(1,2,3) nm ne show ?thesis by blast
  qed
  note h = hoist_common_spec[OF assms(3) c2]
  from h have c5: "\<exists>dls. map (\<lambda>c. emit_schema_definition r (cs_name c) (cs_schema c))
                (filter (\<lambda>c. \<not> has_name (fingerprint_to_name registry) (cs_fingerprint c)) cs)
              = map Inr dls
           \<and> lines' = lines @ concat dls" by blast
  have c6: "map_of (fingerprint_to_name registry') (cs_fingerprint c) = Some (cs_name c)"
    if "c \<in> set cs" "\<not> has_name (fingerprint_to_name registry) (cs_fingerprint c)" for c
  proof -
    from h that(2) have "map_of (fingerprint_to_name registry') (cs_fingerprint c)
        = map_of (map (\<lambda>c. (cs_fingerprint c, cs_name c)) cs) (cs_fingerprint c)" by simp
    with map_of_common[OF c2 that(1)] show ?thesis by simp
  qed
  have c7: "register_and_emit r st name schema =
                Inr \<lparr>es_registry = es_registry st,
                     es_declarations = es_declarations st
                       @ (if name \<noteq> cs_name c then emit_schema_alias name (cs_name c) @ [[]] else []),
                     es_canonical = AList.update name (cs_name c) (es_canonical st)\<rparr>"
    if "c \<in> set cs" "\<not> has_name (fingerprint_to_name registry) (cs_fingerprint c)"
      "get_schema_fingerprint schema = cs_fingerprint c"
      "register_items r pre
               \<lparr>es_registry = registry', es_declarations = [], es_canonical = []\<rparr> = Inr st"
    for c pre name schema st
  proof -
    from c4[OF that(1)] have ne: "cs_name c \<noteq> []" by blast
    from c6[OF that(1,2)] have "map_of (fingerprint_to_name
        (es_registry \<lparr>es_registry = registry', es_declarations = [], es_canonical = []\<rparr>))
        (cs_fingerprint c) = Some (cs_name c)" by simp
    from register_items_keeps[OF that(4) this ne]
    have "map_of (fingerprint_to_name (es_registry st)) (get_schema_fingerprint schema)
        = Some (cs_name c)" unfolding that(3) .
    from register_and_emit_existing[OF this ne] show ?thesis .
  qed
  from c1 c2 c3 c4 c5 c6 c7 show ?thesis by blast
qed

theorem hoisting_pass_amended_witness:
  "collect_route_schemas
     [\<lparr>ri_path = ''/a'', ri_method = ''GET'', ri_parameters = [], ri_request_body = PNone,
       ri_responses = [(''404'', PDict [(''properties'', PDict [(''error'', PDict [(''properties'', PDict
          [(''code'', PDict [(''enum'', PList [PStr ''NOT_FOUND''])]),
           (''message'', PDict [(''type'', PStr ''string'')])])])])])]\<rparr>,
      \<lparr>ri_path = ''/a'', ri_method = ''POST'', ri_parameters = [], ri_request_body = PNone,
       ri_responses = [(''404'', PDict [(''properties'', PDict [(''error'', PDict [(''properties'', PDict
          [(''code'', PDict [(''enum'', PList [PStr ''NOT_FOUND''])]),
           (''message'', PDict [(''type'', PStr ''string'')])])])])])]\<rparr>]
     = Inr [\<lparr>ns_name = ''GetA404ErrorResponse'', ns_schema = PDict [(''properties'', PDict [(''error'', PDict [(''properties'', PDict
          [(''code'', PDict [(''enum'', PList [PStr ''NOT_FOUND''])]),
           (''message'', PDict [(''type'', PStr ''string'')])])])])]\<rparr>,
      \<lparr>ns_name = ''PostA404ErrorResponse'', ns_schema = PDict [(''properties'', PDict [(''error'', PDict [(''properties'', PDict
          [(''code'', PDict [(''enum'', PList [PStr ''NOT_FOUND''])]),
           (''message'', PDict [(''type'', PStr ''string'')])])])])]\<rparr>]
   \<and> find_common_schemas
       [\<lparr>ns_name = ''GetA404ErrorResponse'', ns_schema = PDict [(''properties'', PDict [(''error'', PDict [(''properties'', PDict
          [(''code'', PDict [(''enum'', PList [PStr ''NOT_FOUND''])]),
           (''message'', PDict [(''type'', PStr ''string'')])])])])]\<rparr>,
      \<lparr>ns_name = ''PostA404ErrorResponse'', ns_schema = PDict [(''properties'', PDict [(''error'', PDict [(''properties'', PDict
          [(''code'', PDict [(''enum'', PList [PStr ''NOT_FOUND''])]),
           (''message'', PDict [(''type'', PStr ''string'')])])])])]\<rparr>] 2
     = Inr [\<lparr>cs_name = ''NotFoundError'', cs_schema = PDict [(''properties'', PDict [(''error'', PDict [(''properties'', PDict
          [(''code'', PDict [(''enum'', PList [PStr ''NOT_FOUND''])]),
           (''message'', PDict [(''type'', PStr ''string'')])])])])],
        cs_fingerprint = get_schema_fingerprint (PDict [(''properties'', PDict [(''error'', PDict [(''properties'', PDict
          [(''code'', PDict [(''enum'', PList [PStr ''NOT_FOUND''])]),
           (''message'', PDict [(''type'', PStr ''string'')])])])])]), cs_count = 2\<rparr>]
   \<and> hoist_common new_registry
       [\<lparr>cs_name = ''NotFoundError'', cs_schema = PDict [(''properties'', PDict [(''error'', PDict [(''properties'', PDict
          [(''code'', PDict [(''enum'', PList [PStr ''NOT_FOUND''])]),
           (''message'', PDict [(''type'', PStr ''string'')])])])])],
        cs_fingerprint = get_schema_fingerprint (PDict [(''properties'', PDict [(''error'', PDict [(''properties'', PDict
          [(''code'', PDict [(''enum'', PList [PStr ''NOT_FOUND''])]),
           (''message'', PDict [(''type'', PStr ''string'')])])])])]), cs_count = 2\<rparr>] [] create_schema_registry
     = Inr ([''class NotFoundErrorError(BaseModel):'',
        ''    code: Literal['' @ sq @ ''NOT_FOUND'' @ sq @ ''] = None'',
        ''    message: Annotated[str, Field(strict=True)] = None'',
        ''NotFoundErrorError.model_rebuild()'',
        ''NotFoundErrorErrorSchema = TypeAdapter(NotFoundErrorError)'', [],
        ''class NotFoundError(BaseModel):'',
        ''    error: NotFoundErrorError = None'',
        ''NotFoundError.model_rebuild()'',
        ''NotFoundErrorSchema = TypeAdapter(NotFoundError)'', []],
            \<lparr>fingerprint_to_name = [(get_schema_fingerprint (PDict [(''properties'', PDict [(''error'', PDict [(''properties'', PDict
          [(''code'', PDict [(''enum'', PList [PStr ''NOT_FOUND''])]),
           (''message'', PDict [(''type'', PStr ''string'')])])])])]), ''NotFoundError'')]\<rparr>)
   \<and> register_and_emit new_registry
        \<lparr>es_registry = \<lparr>fingerprint_to_name = [(get_schema_fingerprint (PDict [(''properties'', PDict [(''error'', PDict [(''properties'', PDict
          [(''code'', PDict [(''enum'', PList [PStr ''NOT_FOUND''])]),
           (''message'', PDict [(''type'', PStr ''string'')])])])])]), ''NotFoundError'')]\<rparr>,
         es_declarations = [], es_canonical = []\<rparr>
        ''GetA404ErrorResponse'' (PDict [(''properties'', PDict [(''error'', PDict [(''properties'', PDict
          [(''code'', PDict [(''enum'', PList [PStr ''NOT_FOUND''])]),
           (''message'', PDict [(''type'', PStr ''string'')])])])])])
     = Inr \<lparr>es_registry = \<lparr>fingerprint_to_name = [(get_schema_fingerprint (PDict [(''properties'', PDict [(''error'', PDict [(''properties'', PDict
          [(''code'', PDict [(''enum'', PList [PStr ''NOT_FOUND''])]),
           (''message'', PDict [(''type'', PStr ''string'')])])])])]), ''NotFoundError'')]\<rparr>,
            es_declarations = [''GetA404ErrorResponse = NotFoundError'',
               ''GetA404ErrorResponseSchema = NotFoundErrorSchema'', []],
            es_canonical = [(''GetA404ErrorResponse'', ''NotFoundError'')]\<rparr>
   \<and> register_and_emit new_registry
        \<lparr>es_registry = \<lparr>fingerprint_to_name = [(get_schema_fingerprint (PDict [(''properties'', PDict [(''error'', PDict [(''properties'', PDict
          [(''code'', PDict [(''enum'', PList [PStr ''NOT_FOUND''])]),
           (''message'', PDict [(''type'', PStr ''string'')])])])])]), ''NotFoundError'')]\<rparr>,
         es_declarations = [''GetA404ErrorResponse = NotFoundError'',
               ''GetA404ErrorResponseSchema = NotFoundErrorSchema'', []],
         es_canonical = [(''GetA404ErrorResponse'', ''NotFoundError'')]\<rparr>
        ''PostA404ErrorResponse'' (PDict [(''properties'', PDict [(''error'', PDict [(''properties'', PDict
          [(''code'', PDict [(''enum'', PList [PStr ''NOT_FOUND''])]),
           (''message'', PDict [(''type'', PStr ''string'')])])])])])
     = Inr \<lparr>es_registry = \<lparr>fingerprint_to_name = [(get_schema_fingerprint (PDict [(''properties'', PDict [(''error'', PDict [(''properties'', PDict
          [(''code'', PDict [(''enum'', PList [PStr ''NOT_FOUND''])]),
           (''message'', PDict [(''type'', PStr ''string'')])])])])]), ''NotFoundError'')]\<rparr>,
            es_declarations = [''GetA404ErrorResponse = NotFoundError'',
               ''GetA404ErrorResponseSchema = NotFoundErrorSchema'', [],
               ''PostA404ErrorResponse = NotFoundError'',
               ''PostA404ErrorResponseSchema = NotFoundErrorSchema'', []],
            es_canonical = [(''GetA404ErrorResponse'', ''NotFoundError''),
                            (''PostA404ErrorResponse'', ''NotFoundError'')]\<rparr>"
proof -
  let ?S = "PDict [(''properties'', PDict [(''error'', PDict [(''properties'', PDict
          [(''code'', PDict [(''enum'', PList [PStr ''NOT_FOUND''])]),
           (''message'', PDict [(''type'', PStr ''string'')])])])])]"
  let ?R = "[\<lparr>ri_path = ''/a'', ri_method = ''GET'', ri_parameters = [], ri_request_body = PNone,
       ri_responses = [(''404'', ?S)]\<rparr>,
      \<lparr>ri_path = ''/a'', ri_method = ''POST'', ri_parameters = [], ri_request_body = PNone,
       ri_responses = [(''404'', ?S)]\<rparr>]"
  let ?NSS = "[\<lparr>ns_name = ''GetA404ErrorResponse'', ns_schema = ?S\<rparr>,
      \<lparr>ns_name = ''PostA404ErrorResponse'', ns_schema = ?S\<rparr>]"
  let ?C = "\<lparr>cs_name = ''NotFoundError'', cs_schema = ?S,
        cs_fingerprint = get_schema_fingerprint ?S, cs_count = 2\<rparr>"
  let ?L = "[''class NotFoundErrorError(BaseModel):'',
        ''    code: Literal['' @ sq @ ''NOT_FOUND'' @ sq @ ''] = None'',
        ''    message: Annotated[str, Field(strict=True)] = None'',
        ''NotFoundErrorError.model_rebuild()'',
        ''NotFoundErrorErrorSchema = TypeAdapter(NotFoundErrorError)'', [],
        ''class NotFoundError(BaseModel):'',
        ''    error: NotFoundErrorError = None'',
        ''NotFoundError.model_rebuild()'',
        ''NotFoundErrorSchema = TypeAdapter(NotFoundError)'', []]"
  let ?REG = "\<lparr>fingerprint_to_name = [(get_schema_fingerprint ?S, ''NotFoundError'')]\<rparr>"
  let ?ST0 = "\<lparr>es_registry = ?REG, es_declarations = [], es_canonical = []\<rparr>"
  let ?ST1 = "\<lparr>es_registry = ?REG,
         es_declarations = [''GetA404ErrorResponse = NotFoundError'',
               ''GetA404ErrorResponseSchema = NotFoundErrorSchema'', []],
         es_canonical = [(''GetA404ErrorResponse'', ''NotFoundError'')]\<rparr>"
  have h1: "collect_route_schemas ?R = Inr ?NSS" by code_simp
  have h2: "find_common_schemas ?NSS 2 = Inr [?C]" by code_simp
  have h3: "hoist_common new_registry [?C] [] create_schema_registry = Inr (?L, ?REG)" by code_simp
  have m: "?C \<in> set [?C]" by simp
  have n: "\<not> has_name (fingerprint_to_name create_schema_registry) (cs_fingerprint ?C)"
    by (simp add: has_name_def create_schema_registry_def)
  have f: "get_schema_fingerprint ?S = cs_fingerprint ?C" by simp
  have i0: "concat (map route_items ?R)
      = [] @ (Inr ''GetA404ErrorResponse'', ?S) # [(Inr ''PostA404ErrorResponse'', ?S)]"
    by code_simp
  have i1: "concat (map route_items ?R)
      = [(Inr ''GetA404ErrorResponse'', ?S)] @ (Inr ''PostA404ErrorResponse'', ?S) # []"
    by code_simp
  have g0: "register_items new_registry [] ?ST0 = Inr ?ST0" by simp
  note q = hoisting_pass_amended[OF h1 h2 h3, THEN conjunct2, THEN conjunct2, THEN conjunct2,
      THEN conjunct2, THEN conjunct2, THEN conjunct2]
  have p0: "\<not> has_name (fingerprint_to_name create_schema_registry) (cs_fingerprint ?C)
      \<and> concat (map route_items ?R)
          = [] @ (Inr ''GetA404ErrorResponse'', ?S) # [(Inr ''PostA404ErrorResponse'', ?S)]
      \<and> get_schema_fingerprint ?S = cs_fingerprint ?C
      \<and> register_items new_registry [] ?ST0 = Inr ?ST0"
    using n i0 f g0 by blast
  note r0 = q[rule_format, of ?C "[]" "''GetA404ErrorResponse''" ?S
      "[(Inr ''PostA404ErrorResponse'', ?S)]" ?ST0, OF m p0]
  have e0: "register_and_emit new_registry ?ST0 ''GetA404ErrorResponse'' ?S = Inr ?ST1"
    using r0 by (simp add: emit_schema_alias_def)
  have g1: "register_items new_registry [(Inr ''GetA404ErrorResponse'', ?S)] ?ST0 = Inr ?ST1"
    using e0 by simp
  have p1: "\<not> has_name (fingerprint_to_name create_schema_registry) (cs_fingerprint ?C)
      \<and> concat (map route_items ?R)
          = [(Inr ''GetA404ErrorResponse'', ?S)] @ (Inr ''PostA404ErrorResponse'', ?S) # []
      \<and> get_schema_fingerprint ?S = cs_fingerprint ?C
      \<and> register_items new_registry [(Inr ''GetA404ErrorResponse'', ?S)] ?ST0 = Inr ?ST1"
    using n i1 f g1 by blast
  note r1 = q[rule_format, of ?C "[(Inr ''GetA404ErrorResponse'', ?S)]"
      "''PostA404ErrorResponse''" ?S "[]" ?ST1, OF m p1]
  have e1: "register_and_emit new_registry ?ST1 ''PostA404ErrorResponse'' ?S =
      Inr \<lparr>es_registry = ?REG,
            es_declarations = [''GetA404ErrorResponse = NotFoundError'',
               ''GetA404ErrorResponseSchema = NotFoundErrorSchema'', [],
               ''PostA404ErrorResponse = NotFoundError'',
               ''PostA404ErrorResponseSchema = NotFoundErrorSchema'', []],
            es_canonical = [(''GetA404ErrorResponse'', ''NotFoundError''),
                            (''PostA404ErrorResponse'', ''NotFoundError'')]\<rparr>"
    using r1 by (simp add: emit_schema_alias_def)
  from h1 h2 h3 e0 e1 show ?thesis by blast
qed

end
